theory Spec2Isabelle
  imports Main "HOL-Library.Multiset"
begin

section \<open>The grmpy workflow: data model\<close>

text \<open>
  The development embeds \<^verbatim>\<open>src/c++/lib/grmpy/Workflow.cpp\<close> and the option handling of
  \<^verbatim>\<open>src/c++/main/grmpy.cpp\<close>.

  A \<^verbatim>\<open>Json::Value\<close> is represented by a string; the null value of an alignment payload
  is \<open>None\<close>.  An iterator into \<^verbatim>\<open>graphSpecPaths_\<close> or \<^verbatim>\<open>alignedSamples_\<close> is represented
  by its distance from \<^verbatim>\<open>begin()\<close>, so \<^verbatim>\<open>end()\<close> is the length of the vector.
\<close>

type_synonym Json = string

record SampleInfo =
  sample_name :: string
  filename :: string
  index_filename :: string
  alignment_data :: "Json option"

type_synonym Samples = "SampleInfo list"

record UnalignedSample =
  sample' :: SampleInfo
  unprocessedGraphs' :: nat

datatype failure =
    AssertionFailed
  | OutOfRange
  | ReferenceMissing
  | FileMissing string
  | FileNamesNotUnique
  | AlignmentOutputExists string
  | ManifestLoadFailed string
  | NoGraphsEmptyParagraphColumn string
  | PreAlignedMultiGraph nat
  | ManifestMissing

text \<open>
  The program counter of one worker inside \<^verbatim>\<open>alignSamples\<close>: before it has taken
  \<^verbatim>\<open>mutex_\<close>, inside the \<^verbatim>\<open>unlock_guard\<close> scope with the aligner running on (sample
  index, graph index), returned, or left by an exception.
\<close>

datatype apc = AStart | ACalling nat nat | AFinished | ARaised

text \<open>The same for a worker inside \<^verbatim>\<open>genotypeGraphs\<close>.\<close>

datatype gpc = GStart | GCalling nat | GFinished | GRaised

text \<open>
  Instrumentation: the trace records, in the order of the critical sections,
  \<^item> \<open>AlignClaim i g\<close>, \<open>GenoClaim g\<close>: a worker has advanced the cursor, found
    \<^verbatim>\<open>terminate_\<close> clear and released \<^verbatim>\<open>mutex_\<close> to process the item;
  \<^item> \<open>AlignCall\<close>, \<open>GenoCall\<close> (with the path and the row passed): the collaborator is
    invoked, followed by its \<open>Return\<close> or \<open>Throw\<close>;
  \<^item> \<open>AlignOutOfRange\<close>, \<open>GenoOutOfRange\<close>: a checked \<^verbatim>\<open>at()\<close> raised;
  \<^item> \<open>OutputFile\<close>, \<open>OutputFileThrow\<close>: \<^verbatim>\<open>makeOutputFile\<close> wrote its file or raised;
  \<^item> \<open>Append g text\<close>: the record of graph \<open>g\<close> was appended to the combined stream.
\<close>

datatype event =
    AlignClaim nat nat
  | AlignCall nat nat
  | AlignReturn nat nat
  | AlignThrow nat nat
  | AlignOutOfRange nat nat
  | GenoClaim nat
  | GenoCall nat string Samples
  | GenoReturn nat
  | GenoThrow nat
  | GenoOutOfRange nat
  | OutputFile nat
  | OutputFileThrow nat
  | Append nat string

text \<open>
  The members of \<^verbatim>\<open>Workflow\<close> that the two phases read and write, the two locals of
  \<^verbatim>\<open>Workflow::run\<close> that the workers share by reference (\<^verbatim>\<open>fos\<close>, \<^verbatim>\<open>ungenotypedSamples\<close>),
  the workers of the two pools, and the trace.  The trailing underscore of a member name
  is written as a prime.  \<^verbatim>\<open>Workflow.hh\<close> is not part of the sources:
  \<^verbatim>\<open>terminate_\<close> and \<^verbatim>\<open>firstPrinted_\<close> start as false (the constructor does not set them).
\<close>

record Workflow =
  graphSpecPaths' :: "string list"
  manifest' :: Samples
  outputFilePath' :: string
  outputFolderPath' :: string
  unalignedSamples' :: "UnalignedSample list"
  alignedSamples' :: "Samples list"
  terminate' :: bool
  firstPrinted' :: bool
  ungenotypedSamples :: nat
  fos :: string
  alignWorkers :: "apc list"
  genoWorkers :: "gpc list"
  trace :: "event list"

subsection \<open>The constructor\<close>

text \<open>
  Lines 64--82.  \<^verbatim>\<open>alignedSamples_.resize(max(1, size))\<close>, then for each manifest sample
  an \<^verbatim>\<open>UnalignedSample\<close> whose iterator is \<^verbatim>\<open>begin\<close> when the payload is null and \<^verbatim>\<open>end\<close>
  otherwise, and a \<^verbatim>\<open>push_back\<close> of the sample on every row \<open>i < size\<close>; with no graph the
  assertion that the sample is pre-aligned, and a \<^verbatim>\<open>push_back\<close> on row 0.
\<close>

definition push_rows :: "nat \<Rightarrow> SampleInfo \<Rightarrow> Samples list \<Rightarrow> Samples list" where
  "push_rows n sample tbl = fold (\<lambda>i t. t[i := t ! i @ [sample]]) [0..<n] tbl"

fun ctor_loop ::
  "string list \<Rightarrow> Samples \<Rightarrow> UnalignedSample list \<times> Samples list
     \<Rightarrow> failure + UnalignedSample list \<times> Samples list" where
  "ctor_loop gs [] acc = Inr acc"
| "ctor_loop gs (sample # rest) (us, tbl) =
     (let us' = us @ [\<lparr>sample' = sample,
                       unprocessedGraphs' =
                         (if alignment_data sample = None then 0 else length gs)\<rparr>]
      in if length gs \<noteq> 0 then ctor_loop gs rest (us', push_rows (length gs) sample tbl)
         else if alignment_data sample = None then Inl AssertionFailed
         else ctor_loop gs rest (us', tbl[0 := tbl ! 0 @ [sample]]))"

definition Workflow_ctor ::
  "string list \<Rightarrow> Samples \<Rightarrow> string \<Rightarrow> string \<Rightarrow> failure + Workflow" where
  "Workflow_ctor graphSpecPaths mainfest outputFilePath outputFolderPath =
     (case ctor_loop graphSpecPaths mainfest
             ([], replicate (max 1 (length graphSpecPaths)) []) of
        Inl e \<Rightarrow> Inl e
      | Inr (us, tbl) \<Rightarrow>
          Inr \<lparr>graphSpecPaths' = graphSpecPaths, manifest' = mainfest,
               outputFilePath' = outputFilePath, outputFolderPath' = outputFolderPath,
               unalignedSamples' = us, alignedSamples' = tbl,
               terminate' = False, firstPrinted' = False, ungenotypedSamples = 0,
               fos = [], alignWorkers = [], genoWorkers = [], trace = []\<rparr>)"

subsection \<open>The collaborators\<close>

text \<open>
  The aligner, the genotyper, the JSON printer and the file system are parameters.
  \<open>alignSingleSample\<close> takes the graph path and the slot it is to fill and gives the
  filled slot, or \<open>None\<close> when it raises; \<open>countAndGenotype\<close> takes the graph path and
  the row; \<open>openOutputFile\<close> (folder, graph path) and \<open>openSink\<close> (path) say whether the
  file sink opens.  The other arguments of the collaborators (reference path, parameters,
  the BAM reader) are fixed during a run.  Constructing the BAM reader, logging and
  writing to an open stream do not raise in this model.
\<close>

record Collab =
  alignSingleSample :: "string \<Rightarrow> SampleInfo \<Rightarrow> SampleInfo option"
  countAndGenotype :: "string \<Rightarrow> Samples \<Rightarrow> Json option"
  writeJson :: "Json \<Rightarrow> string"
  openOutputFile :: "string \<Rightarrow> string \<Rightarrow> bool"
  openSink :: "string \<Rightarrow> bool"

subsection \<open>The alignment phase\<close>

text \<open>
  Lines 111--145, from the head of the \<^verbatim>\<open>for\<close> loop at sample \<open>i\<close> with \<^verbatim>\<open>mutex_\<close> held, up
  to the next release of the mutex: the result is \<open>Some (i, g)\<close> when the worker leaves
  the critical section through the \<^verbatim>\<open>unlock_guard\<close> with the pair it claimed, and \<open>None\<close>
  when the \<^verbatim>\<open>for\<close> loop ends.  The iterator is advanced (line 123) before \<^verbatim>\<open>terminate_\<close>
  is read (line 126), and the \<^verbatim>\<open>break\<close> leaves the \<^verbatim>\<open>while\<close> loop only, so the \<^verbatim>\<open>for\<close>
  loop goes on with the next sample.
\<close>

function alignSamples_loop :: "nat \<Rightarrow> Workflow \<Rightarrow> Workflow \<times> (nat \<times> nat) option" where
  "alignSamples_loop i s =
     (if i < length (unalignedSamples' s) then
        (let input = unalignedSamples' s ! i;
             ourGraph = unprocessedGraphs' input
         in if length (graphSpecPaths' s) \<noteq> ourGraph then
              (let s' = s\<lparr>unalignedSamples' :=
                          (unalignedSamples' s)[i := input\<lparr>unprocessedGraphs' := ourGraph + 1\<rparr>]\<rparr>
               in if terminate' s' then alignSamples_loop (i + 1) s'
                  else (s', Some (i, ourGraph)))
            else alignSamples_loop (i + 1) s)
      else (s, None))"
  by pat_completeness auto
termination
  by (relation "measure (\<lambda>(i, s). length (unalignedSamples' s) - i)") auto

declare alignSamples_loop.simps [simp del]

text \<open>Checked access \<^verbatim>\<open>alignedSamples_.at(g).at(i)\<close>: \<open>None\<close> is \<^verbatim>\<open>std::out_of_range\<close>.\<close>

definition slot_at :: "Samples list \<Rightarrow> nat \<Rightarrow> nat \<Rightarrow> SampleInfo option" where
  "slot_at tbl g i =
     (if g < length tbl then (if i < length (tbl ! g) then Some (tbl ! g ! i) else None)
      else None)"

text \<open>
  The worker goes on from the \<^verbatim>\<open>while\<close> loop of sample \<open>i\<close> to its next release of the
  mutex: into the aligner call, or out of the function.
\<close>

definition align_continue :: "nat \<Rightarrow> nat \<Rightarrow> Workflow \<Rightarrow> Workflow" where
  "align_continue w i s =
     (case alignSamples_loop i s of
        (s', None) \<Rightarrow> s'\<lparr>alignWorkers := (alignWorkers s')[w := AFinished]\<rparr>
      | (s', Some (k, g)) \<Rightarrow>
          s'\<lparr>alignWorkers := (alignWorkers s')[w := ACalling k g],
             trace := trace s' @ [AlignClaim k g]\<rparr>)"

text \<open>
  An exception leaves the block: the \<^verbatim>\<open>unlock_guard\<close> takes the mutex again, the cleanup
  of \<^verbatim>\<open>ASYNC_BLOCK_WITH_CLEANUP\<close> runs \<^verbatim>\<open>terminate_ |= failure\<close> with \<open>failure\<close> true, and
  the exception leaves the function.
\<close>

definition align_raise :: "nat \<Rightarrow> event list \<Rightarrow> Workflow \<Rightarrow> Workflow" where
  "align_raise w es s =
     s\<lparr>terminate' := (terminate' s \<or> True),
       alignWorkers := (alignWorkers s)[w := ARaised],
       trace := trace s @ es\<rparr>"

text \<open>
  One step of worker \<open>w\<close>: one critical section.  From \<open>AStart\<close> the worker takes the
  mutex and enters the \<^verbatim>\<open>for\<close> loop at 0.  From \<open>ACalling i g\<close> the slot is taken with the
  checked access, the aligner runs on it with the mutex released (no other worker reads
  or writes this slot during the phase), and the worker takes the mutex again.
\<close>

definition alignSamples_step :: "Collab \<Rightarrow> nat \<Rightarrow> Workflow \<Rightarrow> Workflow" where
  "alignSamples_step K w s =
     (if w < length (alignWorkers s) then
        (case alignWorkers s ! w of
           AStart \<Rightarrow> align_continue w 0 s
         | ACalling i g \<Rightarrow>
             (case slot_at (alignedSamples' s) g i of
                None \<Rightarrow> align_raise w [AlignOutOfRange i g] s
              | Some slot \<Rightarrow>
                  (case alignSingleSample K (graphSpecPaths' s ! g) slot of
                     None \<Rightarrow> align_raise w [AlignCall i g, AlignThrow i g] s
                   | Some r \<Rightarrow>
                       align_continue w i
                         (s\<lparr>alignedSamples' :=
                              (alignedSamples' s)[g := (alignedSamples' s ! g)[i := r]],
                            trace := trace s @ [AlignCall i g, AlignReturn i g]\<rparr>)))
         | AFinished \<Rightarrow> s
         | ARaised \<Rightarrow> s)
      else s)"

text \<open>A schedule names the worker that runs the next critical section.\<close>

definition alignSamples_exec :: "Collab \<Rightarrow> nat list \<Rightarrow> Workflow \<Rightarrow> Workflow" where
  "alignSamples_exec K sched s = fold (alignSamples_step K) sched s"

definition align_done :: "apc \<Rightarrow> bool" where
  "align_done p = (p = AFinished \<or> p = ARaised)"

definition align_joined :: "Workflow \<Rightarrow> bool" where
  "align_joined s = list_all align_done (alignWorkers s)"

subsection \<open>The genotyping phase\<close>

text \<open>
  Lines 152--164, from the head of the \<^verbatim>\<open>while\<close> loop with the mutex held to the next
  release: the iterator is advanced (line 154) before \<^verbatim>\<open>terminate_\<close> is read (line 160).
\<close>

definition genotypeGraphs_loop :: "Workflow \<Rightarrow> Workflow \<times> nat option" where
  "genotypeGraphs_loop s =
     (if length (alignedSamples' s) \<noteq> ungenotypedSamples s then
        (let graphIndex = ungenotypedSamples s;
             s' = s\<lparr>ungenotypedSamples := graphIndex + 1\<rparr>
         in if terminate' s' then (s', None) else (s', Some graphIndex))
      else (s, None))"

definition geno_continue :: "nat \<Rightarrow> Workflow \<Rightarrow> Workflow" where
  "geno_continue w s =
     (case genotypeGraphs_loop s of
        (s', None) \<Rightarrow> s'\<lparr>genoWorkers := (genoWorkers s')[w := GFinished]\<rparr>
      | (s', Some g) \<Rightarrow>
          s'\<lparr>genoWorkers := (genoWorkers s')[w := GCalling g],
             trace := trace s' @ [GenoClaim g]\<rparr>)"

definition geno_raise :: "nat \<Rightarrow> event list \<Rightarrow> Workflow \<Rightarrow> Workflow" where
  "geno_raise w es s =
     s\<lparr>terminate' := (terminate' s \<or> True),
       genoWorkers := (genoWorkers s)[w := GRaised],
       trace := trace s @ es\<rparr>"

text \<open>Line 168: the empty string with no graph, else \<^verbatim>\<open>graphSpecPaths_.at(graphIndex)\<close>.\<close>

definition graphSpecPath_at :: "Workflow \<Rightarrow> nat \<Rightarrow> string option" where
  "graphSpecPath_at s g =
     (if graphSpecPaths' s = [] then Some []
      else if g < length (graphSpecPaths' s) then Some (graphSpecPaths' s ! g)
      else None)"

text \<open>Lines 180--188, with the mutex held again.\<close>

definition append_record :: "Collab \<Rightarrow> nat \<Rightarrow> Json \<Rightarrow> Workflow \<Rightarrow> Workflow" where
  "append_record K g output s =
     (if outputFilePath' s \<noteq> [] then
        s\<lparr>fos := (if firstPrinted' s then fos s @ '','' else fos s) @ writeJson K output,
          firstPrinted' := True,
          trace := trace s @ [Append g (writeJson K output)]\<rparr>
      else s)"

definition genotypeGraphs_step :: "Collab \<Rightarrow> nat \<Rightarrow> Workflow \<Rightarrow> Workflow" where
  "genotypeGraphs_step K w s =
     (if w < length (genoWorkers s) then
        (case genoWorkers s ! w of
           GStart \<Rightarrow> geno_continue w s
         | GCalling g \<Rightarrow>
             (case graphSpecPath_at s g of
                None \<Rightarrow> geno_raise w [GenoOutOfRange g] s
              | Some graphSpecPath \<Rightarrow>
                  (let row = alignedSamples' s ! g in
                   case countAndGenotype K graphSpecPath row of
                     None \<Rightarrow> geno_raise w [GenoCall g graphSpecPath row, GenoThrow g] s
                   | Some output \<Rightarrow>
                       if outputFolderPath' s \<noteq> [] then
                         (if openOutputFile K (outputFolderPath' s) graphSpecPath then
                            geno_continue w
                              (append_record K g output
                                 (s\<lparr>trace := trace s @
                                      [GenoCall g graphSpecPath row, GenoReturn g,
                                       OutputFile g]\<rparr>))
                          else
                            geno_raise w
                              [GenoCall g graphSpecPath row, GenoReturn g,
                               OutputFileThrow g] s)
                       else
                         geno_continue w
                           (append_record K g output
                              (s\<lparr>trace := trace s @
                                   [GenoCall g graphSpecPath row, GenoReturn g]\<rparr>))))
         | GFinished \<Rightarrow> s
         | GRaised \<Rightarrow> s)
      else s)"

definition genotypeGraphs_exec :: "Collab \<Rightarrow> nat list \<Rightarrow> Workflow \<Rightarrow> Workflow" where
  "genotypeGraphs_exec K sched s = fold (genotypeGraphs_step K) sched s"

definition geno_done :: "gpc \<Rightarrow> bool" where
  "geno_done p = (p = GFinished \<or> p = GRaised)"

definition geno_joined :: "Workflow \<Rightarrow> bool" where
  "geno_joined s = list_all geno_done (genoWorkers s)"

subsection \<open>The driver\<close>

datatype outcome = Returned | Raised

text \<open>Lines 220 and 234: when the framing brackets are written.\<close>

definition framed :: "Workflow \<Rightarrow> bool" where
  "framed s = (outputFilePath' s \<noteq> [] \<and> 1 < length (graphSpecPaths' s))"

text \<open>
  Modelled from the spec: \<^verbatim>\<open>common::CPU_THREADS(n).execute(closure)\<close> of
  \<^verbatim>\<open>common/Threads.hh\<close>, which is not part of the sources.  The pool runs \<open>n\<close> workers,
  each running the closure once to completion, and the caller is blocked until all of
  them have returned (join); a failure inside a worker does not abort the pool, and the
  aggregate failure is surfaced to the caller after the join by the termination flag.
  The result is \<open>None\<close> for a schedule that ends before every worker has returned.
\<close>

definition execute_alignSamples ::
  "Collab \<Rightarrow> nat \<Rightarrow> nat list \<Rightarrow> Workflow \<Rightarrow> (outcome \<times> Workflow) option" where
  "execute_alignSamples K n sched s =
     (let s' = alignSamples_exec K sched (s\<lparr>alignWorkers := replicate n AStart\<rparr>)
      in if align_joined s' then Some (if terminate' s' then Raised else Returned, s')
         else None)"

definition execute_genotypeGraphs ::
  "Collab \<Rightarrow> nat \<Rightarrow> nat list \<Rightarrow> Workflow \<Rightarrow> (outcome \<times> Workflow) option" where
  "execute_genotypeGraphs K n sched s =
     (let s' = genotypeGraphs_exec K sched (s\<lparr>genoWorkers := replicate n GStart\<rparr>)
      in if geno_joined s' then Some (if terminate' s' then Raised else Returned, s')
         else None)"

text \<open>Lines 220--223 and 234--237: the framing of the combined stream.\<close>

definition open_stream :: "Workflow \<Rightarrow> Workflow" where
  "open_stream W = (if framed W then W\<lparr>fos := fos W @ ''[''\<rparr> else W)"

definition close_stream :: "Workflow \<Rightarrow> Workflow" where
  "close_stream s = (if framed s then s\<lparr>fos := fos s @ '']'' @ [CHR 0x0A]\<rparr> else s)"

text \<open>
  \<^verbatim>\<open>Workflow::run\<close>, lines 192--238, with \<open>n\<close> the value of \<^verbatim>\<open>parameters_.threads()\<close> and one
  schedule for each phase.  The text that reaches \<^verbatim>\<open>fos\<close> is recorded before any gzip
  filter.  Lines 199--218: a named output file that cannot be opened is an error raised
  before the phases.
\<close>

definition sink_fails :: "Collab \<Rightarrow> Workflow \<Rightarrow> bool" where
  "sink_fails K W \<longleftrightarrow>
     outputFilePath' W \<noteq> [] \<and> outputFilePath' W \<noteq> ''-'' \<and> \<not> openSink K (outputFilePath' W)"

definition Workflow_run ::
  "Collab \<Rightarrow> nat \<Rightarrow> nat list \<Rightarrow> nat list \<Rightarrow> Workflow \<Rightarrow> (outcome \<times> Workflow) option" where
  "Workflow_run K n sched1 sched2 W =
     (if sink_fails K W then Some (Raised, W)
      else
        (case execute_alignSamples K n sched1 (open_stream W) of
           None \<Rightarrow> None
         | Some (Raised, s1) \<Rightarrow> Some (Raised, s1)
         | Some (Returned, s1) \<Rightarrow>
             (case execute_genotypeGraphs K n sched2 (s1\<lparr>ungenotypedSamples := 0\<rparr>) of
                None \<Rightarrow> None
              | Some (Raised, s2) \<Rightarrow> Some (Raised, s2)
              | Some (Returned, s2) \<Rightarrow> Some (Returned, close_stream s2))))"

text \<open>
  The state of a run after the critical sections of a schedule of the alignment phase,
  and after those of a schedule of the genotyping phase that follows it.
\<close>

definition align_start :: "nat \<Rightarrow> Workflow \<Rightarrow> Workflow" where
  "align_start n W = (open_stream W)\<lparr>alignWorkers := replicate n AStart\<rparr>"

definition align_phase :: "Collab \<Rightarrow> nat \<Rightarrow> nat list \<Rightarrow> Workflow \<Rightarrow> Workflow" where
  "align_phase K n sched W = alignSamples_exec K sched (align_start n W)"

definition geno_start :: "nat \<Rightarrow> Workflow \<Rightarrow> Workflow" where
  "geno_start n s = s\<lparr>ungenotypedSamples := 0, genoWorkers := replicate n GStart\<rparr>"

definition geno_phase :: "Collab \<Rightarrow> nat \<Rightarrow> nat list \<Rightarrow> nat list \<Rightarrow> Workflow \<Rightarrow> Workflow" where
  "geno_phase K n sched1 sched2 W =
     genotypeGraphs_exec K sched2 (geno_start n (align_phase K n sched1 W))"

section \<open>The constructed workflow\<close>

definition unaligned_of :: "string list \<Rightarrow> SampleInfo \<Rightarrow> UnalignedSample" where
  "unaligned_of gs m =
     \<lparr>sample' = m, unprocessedGraphs' = (if alignment_data m = None then 0 else length gs)\<rparr>"

lemma push_rows_take:
  "n \<le> length tbl \<Longrightarrow>
   push_rows n x tbl = map (\<lambda>r. r @ [x]) (take n tbl) @ drop n tbl"
proof (induction n)
  case 0
  then show ?case by (simp add: push_rows_def)
next
  case (Suc n)
  then have n: "n < length tbl" by simp
  have "push_rows (Suc n) x tbl = (push_rows n x tbl)[n := push_rows n x tbl ! n @ [x]]"
    by (simp add: push_rows_def)
  also have "push_rows n x tbl = map (\<lambda>r. r @ [x]) (take n tbl) @ drop n tbl"
    using Suc by simp
  finally show ?case using n
    by (simp add: list_update_append nth_append take_Suc_conv_app_nth
        Cons_nth_drop_Suc upd_conv_take_nth_drop)
qed

lemma push_rows_all:
  "length tbl = n \<Longrightarrow> push_rows n x tbl = map (\<lambda>r. r @ [x]) tbl"
  by (simp add: push_rows_take)

lemma ctor_loop_graphs:
  "gs \<noteq> [] \<Longrightarrow> length tbl = length gs \<Longrightarrow>
   ctor_loop gs ms (us, tbl) = Inr (us @ map (unaligned_of gs) ms, map (\<lambda>r. r @ ms) tbl)"
proof (induction ms arbitrary: us tbl)
  case Nil
  then show ?case by simp
next
  case (Cons m ms)
  then show ?case
    by (simp add: push_rows_all unaligned_of_def Let_def)
qed

lemma ctor_loop_no_graphs:
  "tbl \<noteq> [] \<Longrightarrow>
   ctor_loop [] ms (us, tbl) =
     (if \<forall>m \<in> set ms. alignment_data m \<noteq> None
      then Inr (us @ map (unaligned_of []) ms, tbl[0 := tbl ! 0 @ ms])
      else Inl AssertionFailed)"
proof (induction ms arbitrary: us tbl)
  case Nil
  then show ?case by simp
next
  case (Cons m ms)
  then show ?case
    by (auto simp add: unaligned_of_def Let_def)
qed

lemma Workflow_ctor_Inr:
  assumes "Workflow_ctor gs ms ofile ofolder = Inr W"
  shows "W = \<lparr>graphSpecPaths' = gs, manifest' = ms,
               outputFilePath' = ofile, outputFolderPath' = ofolder,
               unalignedSamples' = map (unaligned_of gs) ms,
               alignedSamples' = replicate (max 1 (length gs)) ms,
               terminate' = False, firstPrinted' = False, ungenotypedSamples = 0,
               fos = [], alignWorkers = [], genoWorkers = [], trace = []\<rparr>"
    and "gs = [] \<Longrightarrow> \<forall>m \<in> set ms. alignment_data m \<noteq> None"
proof -
  show "W = \<lparr>graphSpecPaths' = gs, manifest' = ms,
               outputFilePath' = ofile, outputFolderPath' = ofolder,
               unalignedSamples' = map (unaligned_of gs) ms,
               alignedSamples' = replicate (max 1 (length gs)) ms,
               terminate' = False, firstPrinted' = False, ungenotypedSamples = 0,
               fos = [], alignWorkers = [], genoWorkers = [], trace = []\<rparr>"
  proof (cases "gs = []")
    case True
    with assms show ?thesis
      by (auto simp add: Workflow_ctor_def ctor_loop_no_graphs split: if_splits)
  next
    case False
    then have "max 1 (length gs) = length gs" by (cases gs) auto
    with False assms show ?thesis
      by (auto simp add: Workflow_ctor_def ctor_loop_graphs map_replicate)
  qed
  show "gs = [] \<Longrightarrow> \<forall>m \<in> set ms. alignment_data m \<noteq> None"
    using assms by (auto simp add: Workflow_ctor_def ctor_loop_no_graphs split: if_splits)
qed

lemma Workflow_ctor_Inl:
  "Workflow_ctor gs ms ofile ofolder = Inl e \<longleftrightarrow>
     e = AssertionFailed \<and> gs = [] \<and> (\<exists>m \<in> set ms. alignment_data m = None)"
proof (cases "gs = []")
  case True
  then show ?thesis
    by (auto simp add: Workflow_ctor_def ctor_loop_no_graphs split: if_splits)
next
  case False
  then have "max 1 (length gs) = length gs" by (cases gs) auto
  with False show ?thesis
    by (auto simp add: Workflow_ctor_def ctor_loop_graphs)
qed

section \<open>The alignment phase: what one critical section does\<close>

definition cursor :: "Workflow \<Rightarrow> nat \<Rightarrow> nat" where
  "cursor s i = unprocessedGraphs' (unalignedSamples' s ! i)"

definition advance :: "nat \<Rightarrow> Workflow \<Rightarrow> Workflow" where
  "advance k s =
     s\<lparr>unalignedSamples' :=
         (unalignedSamples' s)[k := (unalignedSamples' s ! k)\<lparr>unprocessedGraphs' := cursor s k + 1\<rparr>]\<rparr>"

text \<open>
  The cursors \<open>us\<close> come from those of \<open>s\<close> by advancing some of them by one position,
  none of them past the end.
\<close>

definition advanced :: "Workflow \<Rightarrow> UnalignedSample list \<Rightarrow> bool" where
  "advanced s us \<longleftrightarrow>
     length us = length (unalignedSamples' s) \<and>
     (\<forall>j < length us.
        sample' (us ! j) = sample' (unalignedSamples' s ! j) \<and>
        (unprocessedGraphs' (us ! j) = cursor s j \<or>
         cursor s j \<noteq> length (graphSpecPaths' s) \<and>
         unprocessedGraphs' (us ! j) = cursor s j + 1))"

lemma alignSamples_loop_clear:
  "\<not> terminate' s \<Longrightarrow> alignSamples_loop i s = (s', r) \<Longrightarrow>
   (case r of
      None \<Rightarrow> s' = s \<and> (\<forall>j. i \<le> j \<and> j < length (unalignedSamples' s) \<longrightarrow>
                             cursor s j = length (graphSpecPaths' s))
    | Some (k, g) \<Rightarrow>
        s' = advance k s \<and> i \<le> k \<and> k < length (unalignedSamples' s) \<and> g = cursor s k \<and>
        g \<noteq> length (graphSpecPaths' s) \<and>
        (\<forall>j. i \<le> j \<and> j < k \<longrightarrow> cursor s j = length (graphSpecPaths' s)))"
proof (induction i s arbitrary: s' r rule: alignSamples_loop.induct)
  case (1 i s)
  show ?case
  proof (cases "i < length (unalignedSamples' s)")
    case False
    with "1.prems" show ?thesis
      by (simp add: alignSamples_loop.simps [of i s])
  next
    case True
    show ?thesis
    proof (cases "length (graphSpecPaths' s) = cursor s i")
      case False
      with True "1.prems" show ?thesis
        by (auto simp add: alignSamples_loop.simps [of i s] Let_def cursor_def advance_def)
    next
      case at_end: True
      with True "1.prems" have rec: "alignSamples_loop (i + 1) s = (s', r)"
        by (simp add: alignSamples_loop.simps [of i s] Let_def cursor_def)
      have ih: "case r of
          None \<Rightarrow> s' = s \<and> (\<forall>j. i + 1 \<le> j \<and> j < length (unalignedSamples' s) \<longrightarrow>
                             cursor s j = length (graphSpecPaths' s))
        | Some (k, g) \<Rightarrow>
            s' = advance k s \<and> i + 1 \<le> k \<and> k < length (unalignedSamples' s) \<and> g = cursor s k \<and>
            g \<noteq> length (graphSpecPaths' s) \<and>
            (\<forall>j. i + 1 \<le> j \<and> j < k \<longrightarrow> cursor s j = length (graphSpecPaths' s))"
        using "1.IH"(2) [OF True refl refl _ "1.prems"(1) rec] at_end
        by (simp add: cursor_def)
      have step: "\<And>j. i \<le> j \<Longrightarrow> j = i \<or> i + 1 \<le> j" by arith
      show ?thesis
      proof (cases r)
        case None
        with ih at_end show ?thesis
          by (auto dest: step)
      next
        case (Some kg)
        with ih at_end show ?thesis
          by (cases kg) (auto dest: step)
      qed
    qed
  qed
qed

lemma advanced_refl: "advanced s (unalignedSamples' s)"
  by (simp add: advanced_def cursor_def)

lemma alignSamples_loop_set:
  "terminate' s \<Longrightarrow>
   \<exists>us. alignSamples_loop i s = (s\<lparr>unalignedSamples' := us\<rparr>, None) \<and> advanced s us \<and>
        (\<forall>j < i. us ! j = unalignedSamples' s ! j)"
proof (induction i s rule: alignSamples_loop.induct)
  case (1 i s)
  show ?case
  proof (cases "i < length (unalignedSamples' s)")
    case False
    then have "alignSamples_loop i s = (s\<lparr>unalignedSamples' := unalignedSamples' s\<rparr>, None)"
      by (simp add: alignSamples_loop.simps [of i s])
    then show ?thesis using advanced_refl by blast
  next
    case True
    show ?thesis
    proof (cases "length (graphSpecPaths' s) = cursor s i")
      case at_end: True
      with True have rec: "alignSamples_loop i s = alignSamples_loop (i + 1) s"
        by (simp add: alignSamples_loop.simps [of i s] Let_def cursor_def)
      from "1.IH"(2) [OF True refl refl _ "1.prems"] at_end
      obtain us where "alignSamples_loop (i + 1) s = (s\<lparr>unalignedSamples' := us\<rparr>, None)"
        "advanced s us" "\<forall>j < i + 1. us ! j = unalignedSamples' s ! j"
        by (auto simp add: cursor_def)
      with rec show ?thesis by auto
    next
      case False
      define s1 where "s1 = advance i s"
      have t1: "terminate' s1" using "1.prems" by (simp add: s1_def advance_def)
      from False True "1.prems" have rec: "alignSamples_loop i s = alignSamples_loop (i + 1) s1"
        by (simp add: alignSamples_loop.simps [of i s] Let_def cursor_def s1_def advance_def)
      have "\<exists>us. alignSamples_loop (i + 1) s1 = (s1\<lparr>unalignedSamples' := us\<rparr>, None) \<and>
              advanced s1 us \<and> (\<forall>j < i + 1. us ! j = unalignedSamples' s1 ! j)"
        using "1.IH"(1) [OF True refl refl _ refl] False t1
        by (simp add: cursor_def s1_def advance_def)
      then obtain us where us:
        "alignSamples_loop (i + 1) s1 = (s1\<lparr>unalignedSamples' := us\<rparr>, None)"
        "advanced s1 us" "\<forall>j < i + 1. us ! j = unalignedSamples' s1 ! j"
        by blast
      have eq: "s1\<lparr>unalignedSamples' := us\<rparr> = s\<lparr>unalignedSamples' := us\<rparr>"
        by (simp add: s1_def advance_def)
      have len: "length us = length (unalignedSamples' s)"
        using us(2) by (simp add: advanced_def s1_def advance_def)
      have adv: "advanced s us"
        unfolding advanced_def
      proof (intro conjI allI impI)
        show "length us = length (unalignedSamples' s)" by (rule len)
        fix j assume j: "j < length us"
        show "sample' (us ! j) = sample' (unalignedSamples' s ! j)"
          using us(2) j True by (cases "j = i") (auto simp add: advanced_def s1_def advance_def)
        show "unprocessedGraphs' (us ! j) = cursor s j \<or>
              cursor s j \<noteq> length (graphSpecPaths' s) \<and>
              unprocessedGraphs' (us ! j) = cursor s j + 1"
        proof (cases "j = i")
          case True
          with us(3) have "us ! j = unalignedSamples' s1 ! i" by simp
          with True \<open>i < length (unalignedSamples' s)\<close> False show ?thesis
            by (simp add: s1_def advance_def cursor_def)
        next
          case False
          with us(2) j show ?thesis
            by (auto simp add: advanced_def s1_def advance_def cursor_def)
        qed
      qed
      have low: "\<forall>j < i. us ! j = unalignedSamples' s ! j"
        using us(3) by (simp add: s1_def advance_def)
      from rec us(1) eq adv low show ?thesis by auto
    qed
  qed
qed

lemma align_continue_cases [case_names claim finish abandon]:
  obtains
    (claim) k g where "\<not> terminate' s" "i \<le> k" "k < length (unalignedSamples' s)"
      "g = cursor s k" "g \<noteq> length (graphSpecPaths' s)"
      "\<forall>j. i \<le> j \<and> j < k \<longrightarrow> cursor s j = length (graphSpecPaths' s)"
      "align_continue w i s =
         (advance k s)\<lparr>alignWorkers := (alignWorkers s)[w := ACalling k g],
                        trace := trace s @ [AlignClaim k g]\<rparr>"
  | (finish) "\<not> terminate' s"
      "\<forall>j. i \<le> j \<and> j < length (unalignedSamples' s) \<longrightarrow>
           cursor s j = length (graphSpecPaths' s)"
      "align_continue w i s = s\<lparr>alignWorkers := (alignWorkers s)[w := AFinished]\<rparr>"
  | (abandon) us where "terminate' s" "advanced s us"
      "align_continue w i s =
         s\<lparr>unalignedSamples' := us, alignWorkers := (alignWorkers s)[w := AFinished]\<rparr>"
proof (cases "terminate' s")
  case True
  from alignSamples_loop_set [OF True, of i]
  obtain us where "alignSamples_loop i s = (s\<lparr>unalignedSamples' := us\<rparr>, None)" "advanced s us"
    by blast
  with True abandon show ?thesis
    by (simp add: align_continue_def)
next
  case False
  obtain s' r where sr: "alignSamples_loop i s = (s', r)"
    by (cases "alignSamples_loop i s")
  show ?thesis
  proof (cases r)
    case None
    with alignSamples_loop_clear [OF False sr] sr False finish show ?thesis
      by (simp add: align_continue_def)
  next
    case (Some kg)
    obtain k g where kg: "kg = (k, g)" by (cases kg)
    with Some alignSamples_loop_clear [OF False sr] sr False claim [of k g] show ?thesis
      by (simp add: align_continue_def advance_def)
  qed
qed

subsection \<open>Projections of the trace\<close>

fun claim_of :: "event \<Rightarrow> (nat \<times> nat) list" where
  "claim_of (AlignClaim i g) = [(i, g)]"
| "claim_of _ = []"

fun call_of :: "event \<Rightarrow> (nat \<times> nat) list" where
  "call_of (AlignCall i g) = [(i, g)]"
| "call_of _ = []"

fun return_of :: "event \<Rightarrow> (nat \<times> nat) list" where
  "return_of (AlignReturn i g) = [(i, g)]"
| "return_of _ = []"

fun throw_of :: "event \<Rightarrow> (nat \<times> nat) list" where
  "throw_of (AlignThrow i g) = [(i, g)]"
| "throw_of _ = []"

fun range_error_of :: "event \<Rightarrow> (nat \<times> nat) list" where
  "range_error_of (AlignOutOfRange i g) = [(i, g)]"
| "range_error_of _ = []"

definition align_claims :: "event list \<Rightarrow> (nat \<times> nat) list" where
  "align_claims tr = concat (map claim_of tr)"

definition align_calls :: "event list \<Rightarrow> (nat \<times> nat) list" where
  "align_calls tr = concat (map call_of tr)"

definition align_returns :: "event list \<Rightarrow> (nat \<times> nat) list" where
  "align_returns tr = concat (map return_of tr)"

definition align_throws :: "event list \<Rightarrow> (nat \<times> nat) list" where
  "align_throws tr = concat (map throw_of tr)"

definition align_range_errors :: "event list \<Rightarrow> (nat \<times> nat) list" where
  "align_range_errors tr = concat (map range_error_of tr)"

lemmas align_events_defs =
  align_claims_def align_calls_def align_returns_def align_throws_def align_range_errors_def

lemma align_events_append [simp]:
  "align_claims (xs @ ys) = align_claims xs @ align_claims ys"
  "align_calls (xs @ ys) = align_calls xs @ align_calls ys"
  "align_returns (xs @ ys) = align_returns xs @ align_returns ys"
  "align_throws (xs @ ys) = align_throws xs @ align_throws ys"
  "align_range_errors (xs @ ys) = align_range_errors xs @ align_range_errors ys"
  by (simp_all add: align_events_defs)

lemma align_events_Nil [simp]:
  "align_claims [] = []" "align_calls [] = []" "align_returns [] = []"
  "align_throws [] = []" "align_range_errors [] = []"
  by (simp_all add: align_events_defs)

lemma align_events_Cons [simp]:
  "align_claims (e # xs) = claim_of e @ align_claims xs"
  "align_calls (e # xs) = call_of e @ align_calls xs"
  "align_returns (e # xs) = return_of e @ align_returns xs"
  "align_throws (e # xs) = throw_of e @ align_throws xs"
  "align_range_errors (e # xs) = range_error_of e @ align_range_errors xs"
  by (simp_all add: align_events_defs)

subsection \<open>The invariant of the alignment phase\<close>

text \<open>The position the constructor gives the iterator of sample \<open>i\<close>.\<close>

definition first_graph :: "Workflow \<Rightarrow> nat \<Rightarrow> nat" where
  "first_graph s i =
     (if alignment_data (manifest' s ! i) = None then 0 else length (graphSpecPaths' s))"

text \<open>The pair (sample \<open>i\<close>, graph \<open>g\<close>) lies behind the cursor of sample \<open>i\<close>.\<close>

definition handed_out :: "Workflow \<Rightarrow> nat \<Rightarrow> nat \<Rightarrow> bool" where
  "handed_out s i g \<longleftrightarrow> i < length (manifest' s) \<and> first_graph s i \<le> g \<and> g < cursor s i"

definition align_inv :: "Workflow \<Rightarrow> bool" where
  "align_inv s \<longleftrightarrow>
     map sample' (unalignedSamples' s) = manifest' s \<and>
     (\<forall>i < length (manifest' s).
        first_graph s i \<le> cursor s i \<and> cursor s i \<le> length (graphSpecPaths' s)) \<and>
     (\<forall>p \<in> set (align_claims (trace s)). handed_out s (fst p) (snd p)) \<and>
     (\<forall>w < length (alignWorkers s). \<forall>i g.
        alignWorkers s ! w = ACalling i g \<longrightarrow> handed_out s i g) \<and>
     length (alignedSamples' s) = max 1 (length (graphSpecPaths' s)) \<and>
     (\<forall>row \<in> set (alignedSamples' s). length row = length (manifest' s)) \<and>
     (\<forall>i < length (manifest' s). alignment_data (manifest' s ! i) \<noteq> None \<longrightarrow>
        (\<forall>row \<in> set (alignedSamples' s). row ! i = manifest' s ! i))"

lemma advanced_length: "advanced s us \<Longrightarrow> length us = length (unalignedSamples' s)"
  by (simp add: advanced_def)

lemma advanced_samples:
  "advanced s us \<Longrightarrow> map sample' us = map sample' (unalignedSamples' s)"
  by (rule nth_equalityI) (simp_all add: advanced_def)

lemma advanced_cursor:
  "advanced s us \<Longrightarrow> j < length us \<Longrightarrow>
   cursor s j \<le> unprocessedGraphs' (us ! j) \<and>
   (cursor s j \<le> length (graphSpecPaths' s) \<longrightarrow>
      unprocessedGraphs' (us ! j) \<le> length (graphSpecPaths' s))"
  by (auto simp add: advanced_def)

lemma advanced_advance:
  "k < length (unalignedSamples' s) \<Longrightarrow> cursor s k \<noteq> length (graphSpecPaths' s) \<Longrightarrow>
   advanced s (unalignedSamples' (advance k s))"
  by (auto simp add: advanced_def advance_def cursor_def nth_list_update)

lemma align_invD:
  assumes "align_inv s"
  shows "map sample' (unalignedSamples' s) = manifest' s"
    and "length (unalignedSamples' s) = length (manifest' s)"
    and "i < length (manifest' s) \<Longrightarrow> first_graph s i \<le> cursor s i"
    and "i < length (manifest' s) \<Longrightarrow> cursor s i \<le> length (graphSpecPaths' s)"
    and "q \<in> set (align_claims (trace s)) \<Longrightarrow> handed_out s (fst q) (snd q)"
    and "w < length (alignWorkers s) \<Longrightarrow> alignWorkers s ! w = ACalling k g \<Longrightarrow> handed_out s k g"
    and "length (alignedSamples' s) = max 1 (length (graphSpecPaths' s))"
    and "row \<in> set (alignedSamples' s) \<Longrightarrow> length row = length (manifest' s)"
    and "i < length (manifest' s) \<Longrightarrow> alignment_data (manifest' s ! i) \<noteq> None \<Longrightarrow>
         row \<in> set (alignedSamples' s) \<Longrightarrow> row ! i = manifest' s ! i"
proof -
  show m: "map sample' (unalignedSamples' s) = manifest' s"
    using assms by (simp add: align_inv_def)
  show "length (unalignedSamples' s) = length (manifest' s)"
    using arg_cong [OF m, of length] by simp
  show "i < length (manifest' s) \<Longrightarrow> first_graph s i \<le> cursor s i"
    using assms by (simp add: align_inv_def)
  show "i < length (manifest' s) \<Longrightarrow> cursor s i \<le> length (graphSpecPaths' s)"
    using assms by (simp add: align_inv_def)
  show "q \<in> set (align_claims (trace s)) \<Longrightarrow> handed_out s (fst q) (snd q)"
    using assms by (simp add: align_inv_def)
  show "w < length (alignWorkers s) \<Longrightarrow> alignWorkers s ! w = ACalling k g \<Longrightarrow> handed_out s k g"
    using assms by (simp add: align_inv_def)
  show "length (alignedSamples' s) = max 1 (length (graphSpecPaths' s))"
    using assms by (simp add: align_inv_def)
  show "row \<in> set (alignedSamples' s) \<Longrightarrow> length row = length (manifest' s)"
    using assms by (simp add: align_inv_def)
  show "i < length (manifest' s) \<Longrightarrow> alignment_data (manifest' s ! i) \<noteq> None \<Longrightarrow>
         row \<in> set (alignedSamples' s) \<Longrightarrow> row ! i = manifest' s ! i"
    using assms by (simp add: align_inv_def)
qed

lemma align_inv_update:
  assumes inv: "align_inv s" and adv: "advanced s us"
    and w: "p = AFinished \<or> p = ARaised \<or>
            (\<exists>k g. p = ACalling k g \<and> k < length us \<and> cursor s k \<le> g \<and> g < unprocessedGraphs' (us ! k))"
    and es: "\<And>q. q \<in> set (align_claims es) \<Longrightarrow>
               fst q < length us \<and> cursor s (fst q) \<le> snd q \<and> snd q < unprocessedGraphs' (us ! fst q)"
  shows "align_inv (s\<lparr>unalignedSamples' := us, alignWorkers := (alignWorkers s)[w := p],
                     trace := trace s @ es\<rparr>)"
proof -
  define t where "t = s\<lparr>unalignedSamples' := us, alignWorkers := (alignWorkers s)[w := p],
                trace := trace s @ es\<rparr>"
  have sel: "manifest' t = manifest' s" "graphSpecPaths' t = graphSpecPaths' s"
    "alignedSamples' t = alignedSamples' s" "unalignedSamples' t = us"
    "alignWorkers t = (alignWorkers s)[w := p]" "trace t = trace s @ es"
    by (simp_all add: t_def)
  have len: "length us = length (manifest' s)"
    using advanced_length [OF adv] align_invD(2) [OF inv] by simp
  have smp: "map sample' us = manifest' s"
    using advanced_samples [OF adv] align_invD(1) [OF inv] by simp
  have fg: "\<And>i. first_graph t i = first_graph s i" by (simp add: first_graph_def sel)
  have cur: "\<And>j. cursor t j = unprocessedGraphs' (us ! j)" by (simp add: cursor_def sel)
  have mono: "cursor s j \<le> cursor t j \<and> cursor t j \<le> length (graphSpecPaths' s)"
    if "j < length (manifest' s)" for j
    using advanced_cursor [OF adv, of j] align_invD(4) [OF inv that] that len by (simp add: cur)
  have ho: "handed_out t i g" if "handed_out s i g" for i g
  proof -
    from that have i: "i < length (manifest' s)" and "first_graph s i \<le> g" "g < cursor s i"
      by (simp_all add: handed_out_def)
    moreover from mono [OF i] have "cursor s i \<le> cursor t i" by simp
    ultimately show ?thesis by (simp add: handed_out_def fg sel)
  qed
  have new: "handed_out t k g"
    if "k < length us" "cursor s k \<le> g" "g < unprocessedGraphs' (us ! k)" for k g
  proof -
    from that len have k: "k < length (manifest' s)" by simp
    from align_invD(3) [OF inv k] that show ?thesis
      by (simp add: handed_out_def fg sel cur k)
  qed
  have claims: "handed_out t (fst q) (snd q)" if "q \<in> set (align_claims (trace t))" for q
  proof -
    from that have "q \<in> set (align_claims (trace s)) \<or> q \<in> set (align_claims es)"
      by (auto simp add: align_claims_def sel)
    then show ?thesis
    proof
      assume "q \<in> set (align_claims (trace s))"
      from ho [OF align_invD(5) [OF inv this]] show ?thesis .
    next
      assume "q \<in> set (align_claims es)"
      from es [OF this] show ?thesis using new by blast
    qed
  qed
  have workers: "handed_out t i g"
    if v: "v < length (alignWorkers t)" and c: "alignWorkers t ! v = ACalling i g" for v i g
  proof (cases "v = w")
    case True
    with v c have "p = ACalling i g" by (simp add: sel)
    with w have "i < length us \<and> cursor s i \<le> g \<and> g < unprocessedGraphs' (us ! i)" by auto
    then show ?thesis using new by blast
  next
    case False
    with v c have "alignWorkers s ! v = ACalling i g" "v < length (alignWorkers s)"
      by (simp_all add: sel)
    from ho [OF align_invD(6) [OF inv this(2) this(1)]] show ?thesis .
  qed
  have "align_inv t"
    unfolding align_inv_def
  proof (intro conjI ballI allI impI)
    show "map sample' (unalignedSamples' t) = manifest' t" using smp by (simp add: sel)
  next
    fix i assume "i < length (manifest' t)"
    then have i: "i < length (manifest' s)" by (simp add: sel)
    from mono [OF i] align_invD(3) [OF inv i]
    show "first_graph t i \<le> cursor t i" by (simp add: fg)
    from mono [OF i] show "cursor t i \<le> length (graphSpecPaths' t)" by (simp add: sel)
  next
    fix q assume "q \<in> set (align_claims (trace t))"
    then show "handed_out t (fst q) (snd q)" by (rule claims)
  next
    fix v i g assume "v < length (alignWorkers t)" "alignWorkers t ! v = ACalling i g"
    then show "handed_out t i g" by (rule workers)
  next
    show "length (alignedSamples' t) = max 1 (length (graphSpecPaths' t))"
      using align_invD(7) [OF inv] by (simp add: sel)
  next
    fix row assume "row \<in> set (alignedSamples' t)"
    then show "length row = length (manifest' t)"
      using align_invD(8) [OF inv, of row] by (simp add: sel)
  next
    fix i row
    assume "i < length (manifest' t)" "alignment_data (manifest' t ! i) \<noteq> None"
      "row \<in> set (alignedSamples' t)"
    then show "row ! i = manifest' t ! i"
      using align_invD(9) [OF inv, of i row] by (simp add: sel)
  qed
  then show ?thesis by (simp add: t_def)
qed

lemma align_inv_terminate [simp]: "align_inv (s\<lparr>terminate' := b\<rparr>) = align_inv s"
  by (simp add: align_inv_def handed_out_def first_graph_def cursor_def)

lemma align_inv_continue:
  assumes inv: "align_inv s"
  shows "align_inv (align_continue w i s)"
proof (cases rule: align_continue_cases [of s i w])
  case (claim k g)
  have "align_inv (s\<lparr>unalignedSamples' := unalignedSamples' (advance k s),
                    alignWorkers := (alignWorkers s)[w := ACalling k g],
                    trace := trace s @ [AlignClaim k g]\<rparr>)"
  proof (rule align_inv_update [OF inv])
    show "advanced s (unalignedSamples' (advance k s))"
      using claim by (simp add: advanced_advance)
    show "ACalling k g = AFinished \<or> ACalling k g = ARaised \<or>
      (\<exists>k' g'. ACalling k g = ACalling k' g' \<and> k' < length (unalignedSamples' (advance k s)) \<and>
         cursor s k' \<le> g' \<and> g' < unprocessedGraphs' (unalignedSamples' (advance k s) ! k'))"
      using claim by (simp add: advance_def)
    fix q assume "q \<in> set (align_claims [AlignClaim k g])"
    then have "q = (k, g)" by simp
    then show "fst q < length (unalignedSamples' (advance k s)) \<and> cursor s (fst q) \<le> snd q \<and>
         snd q < unprocessedGraphs' (unalignedSamples' (advance k s) ! fst q)"
      using claim by (simp add: advance_def)
  qed
  then show ?thesis using claim by (simp add: advance_def)
next
  case finish
  have "align_inv (s\<lparr>unalignedSamples' := unalignedSamples' s,
                    alignWorkers := (alignWorkers s)[w := AFinished],
                    trace := trace s @ []\<rparr>)"
    by (rule align_inv_update [OF inv advanced_refl]) simp_all
  then show ?thesis using finish by simp
next
  case (abandon us)
  have "align_inv (s\<lparr>unalignedSamples' := us,
                    alignWorkers := (alignWorkers s)[w := AFinished],
                    trace := trace s @ []\<rparr>)"
    by (rule align_inv_update [OF inv abandon(2)]) simp_all
  then show ?thesis using abandon by simp
qed

lemma align_inv_raise:
  assumes inv: "align_inv s" and es: "align_claims es = []"
  shows "align_inv (align_raise w es s)"
proof -
  define s0 where "s0 = s\<lparr>terminate' := True\<rparr>"
  have inv0: "align_inv s0" using inv by (simp add: s0_def)
  have "align_inv (s0\<lparr>unalignedSamples' := unalignedSamples' s0,
                    alignWorkers := (alignWorkers s0)[w := ARaised],
                    trace := trace s0 @ es\<rparr>)"
    by (rule align_inv_update [OF inv0 advanced_refl]) (simp_all add: es)
  then show ?thesis by (simp add: align_raise_def s0_def)
qed

lemma handed_out_not_prealigned:
  assumes inv: "align_inv s" and h: "handed_out s i g"
  shows "i < length (manifest' s)" "alignment_data (manifest' s ! i) = None"
    "g < length (graphSpecPaths' s)"
proof -
  from h show i: "i < length (manifest' s)" by (simp add: handed_out_def)
  from h have "first_graph s i \<le> g" "g < cursor s i" by (simp_all add: handed_out_def)
  with align_invD(4) [OF inv i] show "g < length (graphSpecPaths' s)" by simp
  with \<open>first_graph s i \<le> g\<close> show "alignment_data (manifest' s ! i) = None"
    by (simp add: first_graph_def split: if_splits)
qed

lemma align_inv_slot:
  assumes inv: "align_inv s" and h: "handed_out s i g"
    and g: "g < length (alignedSamples' s)" and es: "align_claims es = []"
  shows "align_inv (s\<lparr>alignedSamples' := (alignedSamples' s)[g := (alignedSamples' s ! g)[i := r]],
                     trace := trace s @ es\<rparr>)"
proof -
  define t where "t = s\<lparr>alignedSamples' := (alignedSamples' s)[g := (alignedSamples' s ! g)[i := r]],
                     trace := trace s @ es\<rparr>"
  have sel: "manifest' t = manifest' s" "graphSpecPaths' t = graphSpecPaths' s"
    "alignedSamples' t = (alignedSamples' s)[g := (alignedSamples' s ! g)[i := r]]"
    "unalignedSamples' t = unalignedSamples' s"
    "alignWorkers t = alignWorkers s" "trace t = trace s @ es"
    by (simp_all add: t_def)
  have ho: "\<And>k j. handed_out t k j = handed_out s k j"
    by (simp add: handed_out_def first_graph_def cursor_def sel)
  have rows: "row \<in> set (alignedSamples' s) \<or> row = (alignedSamples' s ! g)[i := r]"
    if "row \<in> set (alignedSamples' t)" for row
    using that set_update_subset_insert [of "alignedSamples' s" g "(alignedSamples' s ! g)[i := r]"]
    by (auto simp add: sel)
  have old: "alignedSamples' s ! g \<in> set (alignedSamples' s)" using g by simp
  have "align_inv t"
    unfolding align_inv_def
  proof (intro conjI ballI allI impI)
    show "map sample' (unalignedSamples' t) = manifest' t"
      using align_invD(1) [OF inv] by (simp add: sel)
  next
    fix k assume "k < length (manifest' t)"
    then have k: "k < length (manifest' s)" by (simp add: sel)
    have eq: "first_graph t k = first_graph s k" "cursor t k = cursor s k"
      by (simp_all add: first_graph_def cursor_def sel)
    from align_invD(3) [OF inv k]
    show "first_graph t k \<le> cursor t k" by (simp only: eq)
    from align_invD(4) [OF inv k]
    show "cursor t k \<le> length (graphSpecPaths' t)" by (simp only: eq sel)
  next
    fix q assume "q \<in> set (align_claims (trace t))"
    then have "q \<in> set (align_claims (trace s))"
      using es by (simp add: sel)
    from align_invD(5) [OF inv this] show "handed_out t (fst q) (snd q)" by (simp add: ho)
  next
    fix v k j assume "v < length (alignWorkers t)" "alignWorkers t ! v = ACalling k j"
    then show "handed_out t k j"
      using align_invD(6) [OF inv, of v k j] by (simp add: sel ho)
  next
    show "length (alignedSamples' t) = max 1 (length (graphSpecPaths' t))"
      using align_invD(7) [OF inv] by (simp add: sel)
  next
    fix row assume "row \<in> set (alignedSamples' t)"
    from rows [OF this] show "length row = length (manifest' t)"
      using align_invD(8) [OF inv] old by (auto simp add: sel)
  next
    fix k row
    assume k: "k < length (manifest' t)" "alignment_data (manifest' t ! k) \<noteq> None"
      and "row \<in> set (alignedSamples' t)"
    from rows [OF this(3)] show "row ! k = manifest' t ! k"
    proof
      assume "row \<in> set (alignedSamples' s)"
      with k show ?thesis using align_invD(9) [OF inv, of k row] by (simp add: sel)
    next
      assume row: "row = (alignedSamples' s ! g)[i := r]"
      from handed_out_not_prealigned(2) [OF inv h] k have "k \<noteq> i" by (auto simp add: sel)
      with row k show ?thesis using align_invD(9) [OF inv, of k, OF _ _ old] by (simp add: sel)
    qed
  qed
  then show ?thesis by (simp add: t_def)
qed

lemma slot_at_Some:
  "slot_at tbl g i = Some x \<longleftrightarrow> g < length tbl \<and> i < length (tbl ! g) \<and> x = tbl ! g ! i"
  by (auto simp add: slot_at_def)

lemma slot_at_None:
  "slot_at tbl g i = None \<longleftrightarrow> \<not> (g < length tbl \<and> i < length (tbl ! g))"
  by (auto simp add: slot_at_def)

lemma align_inv_step:
  assumes inv: "align_inv s"
  shows "align_inv (alignSamples_step K w s)"
proof (cases "w < length (alignWorkers s)")
  case False
  with inv show ?thesis by (simp add: alignSamples_step_def)
next
  case w: True
  show ?thesis
  proof (cases "alignWorkers s ! w")
    case AStart
    with w show ?thesis by (simp add: alignSamples_step_def align_inv_continue [OF inv])
  next
    case AFinished
    with w inv show ?thesis by (simp add: alignSamples_step_def)
  next
    case ARaised
    with w inv show ?thesis by (simp add: alignSamples_step_def)
  next
    case (ACalling i g)
    from align_invD(6) [OF inv w ACalling] have h: "handed_out s i g" .
    show ?thesis
    proof (cases "slot_at (alignedSamples' s) g i")
      case None
      with w ACalling show ?thesis
        by (simp add: alignSamples_step_def align_inv_raise [OF inv])
    next
      case (Some slot)
      then have g: "g < length (alignedSamples' s)" by (simp add: slot_at_Some)
      show ?thesis
      proof (cases "alignSingleSample K (graphSpecPaths' s ! g) slot")
        case None
        with w ACalling Some show ?thesis
          by (simp add: alignSamples_step_def align_inv_raise [OF inv])
      next
        case r: (Some r)
        have "align_inv (s\<lparr>alignedSamples' := (alignedSamples' s)[g := (alignedSamples' s ! g)[i := r]],
                     trace := trace s @ [AlignCall i g, AlignReturn i g]\<rparr>)"
          by (rule align_inv_slot [OF inv h g]) simp
        from align_inv_continue [OF this] w ACalling Some r show ?thesis
          by (simp add: alignSamples_step_def)
      qed
    qed
  qed
qed

lemma align_inv_exec: "align_inv s \<Longrightarrow> align_inv (alignSamples_exec K sched s)"
  unfolding alignSamples_exec_def
  by (induction sched arbitrary: s) (simp_all add: align_inv_step)

subsection \<open>Exactly once: the claims are the pairs behind the cursors\<close>

definition align_exact :: "Workflow \<Rightarrow> bool" where
  "align_exact s \<longleftrightarrow>
     (\<not> terminate' s \<longrightarrow>
        distinct (align_claims (trace s)) \<and>
        (\<forall>i g. (i, g) \<in> set (align_claims (trace s)) \<longleftrightarrow> handed_out s i g) \<and>
        (\<forall>w < length (alignWorkers s). \<forall>i g. alignWorkers s ! w = ACalling i g \<longrightarrow>
           (\<forall>k < i. cursor s k = length (graphSpecPaths' s))) \<and>
        (\<forall>w < length (alignWorkers s). alignWorkers s ! w = AFinished \<longrightarrow>
           (\<forall>k < length (manifest' s). cursor s k = length (graphSpecPaths' s))))"

lemma align_exactD:
  assumes "align_exact s" "\<not> terminate' s"
  shows "distinct (align_claims (trace s))"
    and "(i, g) \<in> set (align_claims (trace s)) \<longleftrightarrow> handed_out s i g"
    and "w < length (alignWorkers s) \<Longrightarrow> alignWorkers s ! w = ACalling i g \<Longrightarrow> k < i \<Longrightarrow>
         cursor s k = length (graphSpecPaths' s)"
    and "w < length (alignWorkers s) \<Longrightarrow> alignWorkers s ! w = AFinished \<Longrightarrow>
         k < length (manifest' s) \<Longrightarrow> cursor s k = length (graphSpecPaths' s)"
  using assms by (simp_all add: align_exact_def)

lemma cursor_advance:
  "k < length (unalignedSamples' s) \<Longrightarrow>
   cursor (advance k s) j = (if j = k then cursor s k + 1 else cursor s j)"
  by (simp add: cursor_def advance_def)

lemma handed_out_advance:
  assumes inv: "align_inv s" and k: "k < length (unalignedSamples' s)"
  shows "handed_out (advance k s) i g \<longleftrightarrow> handed_out s i g \<or> (i, g) = (k, cursor s k)"
proof -
  have k': "k < length (manifest' s)" using k align_invD(2) [OF inv] by simp
  have fg: "\<And>j. first_graph (advance k s) j = first_graph s j"
    by (simp add: first_graph_def advance_def)
  have m: "manifest' (advance k s) = manifest' s" by (simp add: advance_def)
  show ?thesis
  proof (cases "i = k")
    case False
    then show ?thesis by (simp add: handed_out_def fg m cursor_advance [OF k])
  next
    case True
    with align_invD(3) [OF inv k'] k' show ?thesis
      by (auto simp add: handed_out_def fg m cursor_advance [OF k])
  qed
qed

lemma align_exact_continue:
  assumes inv: "align_inv s" and ex: "align_exact s"
    and low: "\<not> terminate' s \<Longrightarrow> \<forall>k < i. k < length (manifest' s) \<longrightarrow>
                cursor s k = length (graphSpecPaths' s)"
  shows "align_exact (align_continue w i s)"
proof (cases rule: align_continue_cases [of s i w])
  case (abandon us)
  then show ?thesis by (simp add: align_exact_def)
next
  case finish
  let ?t = "s\<lparr>alignWorkers := (alignWorkers s)[w := AFinished]\<rparr>"
  have all: "cursor s k = length (graphSpecPaths' s)" if "k < length (manifest' s)" for k
    using low [OF finish(1)] finish(2) that align_invD(2) [OF inv]
    by (cases "k < i") auto
  have c: "\<And>j. cursor ?t j = cursor s j" by (simp add: cursor_def)
  have h: "\<And>i g. handed_out ?t i g = handed_out s i g"
    by (simp add: handed_out_def first_graph_def cursor_def)
  have "align_exact ?t"
    unfolding align_exact_def
  proof (intro impI conjI allI)
    show "distinct (align_claims (trace ?t))"
      using align_exactD(1) [OF ex finish(1)] by simp
  next
    fix i g show "((i, g) \<in> set (align_claims (trace ?t))) = handed_out ?t i g"
      using align_exactD(2) [OF ex finish(1)] by (simp add: h)
  next
    fix v i g k
    assume v: "v < length (alignWorkers ?t)" "alignWorkers ?t ! v = ACalling i g" "k < i"
    then have "v \<noteq> w" by (auto simp add: nth_list_update split: if_splits)
    with v show "cursor ?t k = length (graphSpecPaths' ?t)"
      using align_exactD(3) [OF ex finish(1), of v i g k] by (simp add: c)
  next
    fix v k
    assume "k < length (manifest' ?t)"
    then show "cursor ?t k = length (graphSpecPaths' ?t)" using all by (simp add: c)
  qed
  with finish show ?thesis by simp
next
  case (claim k g)
  define t where "t = (advance k s)\<lparr>alignWorkers := (alignWorkers s)[w := ACalling k g],
                        trace := trace s @ [AlignClaim k g]\<rparr>"
  have k': "k < length (manifest' s)" using claim(3) align_invD(2) [OF inv] by simp
  have c: "\<And>j. cursor t j = (if j = k then cursor s k + 1 else cursor s j)"
    using cursor_advance [OF claim(3)] by (simp add: cursor_def advance_def t_def)
  have "\<And>i g. handed_out t i g = handed_out (advance k s) i g"
    by (simp add: handed_out_def first_graph_def cursor_def t_def)
  then have h: "\<And>i g. handed_out t i g \<longleftrightarrow> handed_out s i g \<or> (i, g) = (k, cursor s k)"
    by (simp only: handed_out_advance [OF inv claim(3)])
  have sel: "trace t = trace s @ [AlignClaim k g]" "alignWorkers t = (alignWorkers s)[w := ACalling k g]"
    "graphSpecPaths' t = graphSpecPaths' s" "manifest' t = manifest' s" "terminate' t = terminate' s"
    by (simp_all add: advance_def t_def)
  have notyet: "(k, g) \<notin> set (align_claims (trace s))"
    using align_exactD(2) [OF ex claim(1), of k g] claim(4) by (simp add: handed_out_def)
  have "align_exact t"
    unfolding align_exact_def
  proof (intro impI conjI allI)
    show "distinct (align_claims (trace t))"
      using align_exactD(1) [OF ex claim(1)] notyet by (simp add: sel)
  next
    fix i j
    have "(i, j) \<in> set (align_claims (trace t)) \<longleftrightarrow>
          (i, j) \<in> set (align_claims (trace s)) \<or> (i, j) = (k, g)"
      by (auto simp add: sel)
    then show "((i, j) \<in> set (align_claims (trace t))) = handed_out t i j"
      using align_exactD(2) [OF ex claim(1), of i j] claim(4) by (simp add: h)
  next
    fix v a j m
    assume v: "v < length (alignWorkers t)" "alignWorkers t ! v = ACalling a j" "m < a"
    show "cursor t m = length (graphSpecPaths' t)"
    proof (cases "v = w")
      case True
      with v have "a = k" by (simp add: sel)
      with v(3) have mk: "m < k" by simp
      then have "m < length (manifest' s)" using k' by simp
      then have "cursor s m = length (graphSpecPaths' s)"
        using low [OF claim(1)] claim(6) mk by (cases "m < i") auto
      with mk show ?thesis by (simp add: c sel)
    next
      case False
      with v have "cursor s m = length (graphSpecPaths' s)"
        using align_exactD(3) [OF ex claim(1), of v a j m] by (simp add: sel)
      moreover from this claim(4,5) have "m \<noteq> k" by auto
      ultimately show ?thesis by (simp add: c sel)
    qed
  next
    fix v m
    assume v: "v < length (alignWorkers t)" "alignWorkers t ! v = AFinished"
      and m: "m < length (manifest' t)"
    from v have "v \<noteq> w" by (auto simp add: sel nth_list_update split: if_splits)
    with v have "cursor s k = length (graphSpecPaths' s)"
      using align_exactD(4) [OF ex claim(1), of v k] k' by (simp add: sel)
    with claim(4,5) show "cursor t m = length (graphSpecPaths' t)" by simp
  qed
  with claim show ?thesis by (simp add: t_def)
qed

lemma align_exact_raise: "align_exact (align_raise w es s)"
  by (simp add: align_exact_def align_raise_def)

lemma align_exact_slot:
  assumes "align_exact s" "align_claims es = []"
  shows "align_exact (s\<lparr>alignedSamples' := tbl, trace := trace s @ es\<rparr>)"
  using assms
  by (simp add: align_exact_def handed_out_def first_graph_def cursor_def)

lemma cursor_slot [simp]:
  "cursor (s\<lparr>alignedSamples' := tbl, trace := tr\<rparr>) k = cursor s k"
  by (simp add: cursor_def)

lemma align_exact_step:
  assumes inv: "align_inv s" and ex: "align_exact s"
  shows "align_exact (alignSamples_step K w s)"
proof (cases "w < length (alignWorkers s)")
  case False
  with ex show ?thesis by (simp add: alignSamples_step_def)
next
  case w: True
  show ?thesis
  proof (cases "alignWorkers s ! w")
    case AStart
    with w show ?thesis
      by (simp add: alignSamples_step_def align_exact_continue [OF inv ex])
  next
    case AFinished
    with w ex show ?thesis by (simp add: alignSamples_step_def)
  next
    case ARaised
    with w ex show ?thesis by (simp add: alignSamples_step_def)
  next
    case (ACalling i g)
    from align_invD(6) [OF inv w ACalling] have h: "handed_out s i g" .
    show ?thesis
    proof (cases "slot_at (alignedSamples' s) g i")
      case None
      with w ACalling show ?thesis
        by (simp add: alignSamples_step_def align_exact_raise)
    next
      case (Some slot)
      then have g: "g < length (alignedSamples' s)" by (simp add: slot_at_Some)
      show ?thesis
      proof (cases "alignSingleSample K (graphSpecPaths' s ! g) slot")
        case None
        with w ACalling Some show ?thesis
          by (simp add: alignSamples_step_def align_exact_raise)
      next
        case r: (Some r)
        define s1 where "s1 = s\<lparr>alignedSamples' := (alignedSamples' s)[g := (alignedSamples' s ! g)[i := r]],
                     trace := trace s @ [AlignCall i g, AlignReturn i g]\<rparr>"
        have inv1: "align_inv s1"
          unfolding s1_def by (rule align_inv_slot [OF inv h g]) simp
        have ex1: "align_exact s1"
          unfolding s1_def by (rule align_exact_slot [OF ex]) simp
        have low: "\<forall>k < i. k < length (manifest' s1) \<longrightarrow> cursor s1 k = length (graphSpecPaths' s1)"
          if "\<not> terminate' s1"
        proof -
          from that have "\<not> terminate' s" by (simp add: s1_def)
          from align_exactD(3) [OF ex this w ACalling] show ?thesis by (simp add: s1_def)
        qed
        from align_exact_continue [OF inv1 ex1 low] w ACalling Some r show ?thesis
          by (simp add: alignSamples_step_def s1_def)
      qed
    qed
  qed
qed

lemma align_exact_exec:
  "align_inv s \<Longrightarrow> align_exact s \<Longrightarrow> align_exact (alignSamples_exec K sched s)"
  unfolding alignSamples_exec_def
  by (induction sched arbitrary: s) (simp_all add: align_inv_step align_exact_step)

subsection \<open>Every claim is called, every call returns or raises\<close>

fun inflight_of :: "apc \<Rightarrow> (nat \<times> nat) multiset" where
  "inflight_of (ACalling i g) = {#(i, g)#}"
| "inflight_of _ = {#}"

definition align_inflight :: "apc list \<Rightarrow> (nat \<times> nat) multiset" where
  "align_inflight ws = sum_list (map inflight_of ws)"

lemma align_inflight_update:
  "w < length ws \<Longrightarrow>
   align_inflight (ws[w := p]) + inflight_of (ws ! w) = align_inflight ws + inflight_of p"
proof (induction ws arbitrary: w)
  case Nil
  then show ?case by simp
next
  case (Cons a ws)
  show ?case
  proof (cases w)
    case 0
    then show ?thesis by (simp add: align_inflight_def)
  next
    case (Suc v)
    with Cons.prems have "v < length ws" by simp
    from Cons.IH [OF this] Suc show ?thesis
      by (simp add: align_inflight_def ac_simps)
  qed
qed

definition align_book :: "Workflow \<Rightarrow> bool" where
  "align_book s \<longleftrightarrow>
     mset (align_claims (trace s)) =
       mset (align_calls (trace s)) + mset (align_range_errors (trace s)) +
       align_inflight (alignWorkers s) \<and>
     mset (align_calls (trace s)) =
       mset (align_returns (trace s)) + mset (align_throws (trace s))"

lemma align_book_continue:
  assumes w: "w < length (alignWorkers s)"
    and 1: "mset (align_claims (trace s)) + inflight_of (alignWorkers s ! w) =
       mset (align_calls (trace s)) + mset (align_range_errors (trace s)) +
       align_inflight (alignWorkers s)"
    and 2: "mset (align_calls (trace s)) =
       mset (align_returns (trace s)) + mset (align_throws (trace s))"
  shows "align_book (align_continue w i s)"
proof (cases rule: align_continue_cases [of s i w])
  case (claim k g)
  from align_inflight_update [OF w, of "ACalling k g"] 1
  have "mset (align_claims (trace s)) + {#(k, g)#} + inflight_of (alignWorkers s ! w) =
     mset (align_calls (trace s)) + mset (align_range_errors (trace s)) +
       align_inflight ((alignWorkers s)[w := ACalling k g]) + inflight_of (alignWorkers s ! w)"
    by (simp add: ac_simps)
  then have "mset (align_claims (trace s)) + {#(k, g)#} =
     mset (align_calls (trace s)) + mset (align_range_errors (trace s)) +
       align_inflight ((alignWorkers s)[w := ACalling k g])"
    by simp
  with 2 claim show ?thesis
    by (simp add: align_book_def advance_def)
next
  case finish
  from align_inflight_update [OF w, of AFinished] 1
  have "mset (align_claims (trace s)) + inflight_of (alignWorkers s ! w) =
     mset (align_calls (trace s)) + mset (align_range_errors (trace s)) +
       align_inflight ((alignWorkers s)[w := AFinished]) + inflight_of (alignWorkers s ! w)"
    by (simp add: ac_simps)
  then have "mset (align_claims (trace s)) =
     mset (align_calls (trace s)) + mset (align_range_errors (trace s)) +
       align_inflight ((alignWorkers s)[w := AFinished])"
    by simp
  with 2 finish show ?thesis
    by (simp add: align_book_def)
next
  case (abandon us)
  from align_inflight_update [OF w, of AFinished] 1
  have "mset (align_claims (trace s)) + inflight_of (alignWorkers s ! w) =
     mset (align_calls (trace s)) + mset (align_range_errors (trace s)) +
       align_inflight ((alignWorkers s)[w := AFinished]) + inflight_of (alignWorkers s ! w)"
    by (simp add: ac_simps)
  then have "mset (align_claims (trace s)) =
     mset (align_calls (trace s)) + mset (align_range_errors (trace s)) +
       align_inflight ((alignWorkers s)[w := AFinished])"
    by simp
  with 2 abandon show ?thesis
    by (simp add: align_book_def)
qed

lemma align_book_step:
  assumes bk: "align_book s"
  shows "align_book (alignSamples_step K w s)"
proof (cases "w < length (alignWorkers s)")
  case False
  with bk show ?thesis by (simp add: alignSamples_step_def)
next
  case w: True
  from bk have 1: "mset (align_claims (trace s)) =
       mset (align_calls (trace s)) + mset (align_range_errors (trace s)) +
       align_inflight (alignWorkers s)"
    and 2: "mset (align_calls (trace s)) =
       mset (align_returns (trace s)) + mset (align_throws (trace s))"
    by (simp_all add: align_book_def)
  show ?thesis
  proof (cases "alignWorkers s ! w")
    case AStart
    with w 1 2 show ?thesis
      by (simp add: alignSamples_step_def align_book_continue)
  next
    case AFinished
    with w bk show ?thesis by (simp add: alignSamples_step_def)
  next
    case ARaised
    with w bk show ?thesis by (simp add: alignSamples_step_def)
  next
    case (ACalling i g)
    from align_inflight_update [OF w, of ARaised] ACalling
    have r: "align_inflight (alignWorkers s) = align_inflight ((alignWorkers s)[w := ARaised]) + {#(i, g)#}"
      by simp
    show ?thesis
    proof (cases "slot_at (alignedSamples' s) g i")
      case None
      with w ACalling 1 2 r show ?thesis
        by (simp add: alignSamples_step_def align_raise_def align_book_def)
    next
      case (Some slot)
      show ?thesis
      proof (cases "alignSingleSample K (graphSpecPaths' s ! g) slot")
        case None
        with w ACalling Some 1 2 r show ?thesis
          by (simp add: alignSamples_step_def align_raise_def align_book_def)
      next
        case r: (Some r)
        define s1 where "s1 = s\<lparr>alignedSamples' := (alignedSamples' s)[g := (alignedSamples' s ! g)[i := r]],
                     trace := trace s @ [AlignCall i g, AlignReturn i g]\<rparr>"
        have "align_book (align_continue w i s1)"
        proof (rule align_book_continue)
          show "w < length (alignWorkers s1)" using w by (simp add: s1_def)
          show "mset (align_claims (trace s1)) + inflight_of (alignWorkers s1 ! w) =
              mset (align_calls (trace s1)) + mset (align_range_errors (trace s1)) +
              align_inflight (alignWorkers s1)"
            using 1 ACalling by (simp add: s1_def)
          show "mset (align_calls (trace s1)) =
              mset (align_returns (trace s1)) + mset (align_throws (trace s1))"
            using 2 by (simp add: s1_def)
        qed
        with w ACalling Some r show ?thesis
          by (simp add: alignSamples_step_def s1_def)
      qed
    qed
  qed
qed

lemma align_book_exec: "align_book s \<Longrightarrow> align_book (alignSamples_exec K sched s)"
  unfolding alignSamples_exec_def
  by (induction sched arbitrary: s) (simp_all add: align_book_step)

subsection \<open>The termination flag and the failures in the trace\<close>

fun is_failure :: "event \<Rightarrow> bool" where
  "is_failure (AlignThrow i g) = True"
| "is_failure (AlignOutOfRange i g) = True"
| "is_failure (GenoThrow g) = True"
| "is_failure (GenoOutOfRange g) = True"
| "is_failure (OutputFileThrow g) = True"
| "is_failure _ = False"

definition failures :: "event list \<Rightarrow> event list" where
  "failures tr = filter is_failure tr"

lemma failures_simps [simp]:
  "failures [] = []"
  "failures (xs @ ys) = failures xs @ failures ys"
  "failures (e # xs) = (if is_failure e then e # failures xs else failures xs)"
  by (simp_all add: failures_def)

definition flag_inv :: "Workflow \<Rightarrow> bool" where
  "flag_inv s \<longleftrightarrow>
     (terminate' s \<longleftrightarrow> failures (trace s) \<noteq> []) \<and>
     (ARaised \<in> set (alignWorkers s) \<longrightarrow> terminate' s) \<and>
     (GRaised \<in> set (genoWorkers s) \<longrightarrow> terminate' s)"

text \<open>What a critical section of the alignment phase leaves unchanged.\<close>

lemma align_continue_frame:
  "terminate' (align_continue w i s) = terminate' s"
  "failures (trace (align_continue w i s)) = failures (trace s)"
  "genoWorkers (align_continue w i s) = genoWorkers s"
  "fos (align_continue w i s) = fos s"
  "firstPrinted' (align_continue w i s) = firstPrinted' s"
  "ungenotypedSamples (align_continue w i s) = ungenotypedSamples s"
  "alignedSamples' (align_continue w i s) = alignedSamples' s"
  "graphSpecPaths' (align_continue w i s) = graphSpecPaths' s"
  "manifest' (align_continue w i s) = manifest' s"
  "outputFilePath' (align_continue w i s) = outputFilePath' s"
  "outputFolderPath' (align_continue w i s) = outputFolderPath' s"
  "length (alignWorkers (align_continue w i s)) = length (alignWorkers s)"
  by (cases rule: align_continue_cases [of s i w]; simp add: advance_def)+

lemma align_continue_workers:
  "\<exists>p. alignWorkers (align_continue w i s) = (alignWorkers s)[w := p] \<and> p \<noteq> ARaised \<and>
       (terminate' s \<longrightarrow> p = AFinished)"
proof (cases rule: align_continue_cases [of s i w])
  case (claim k g)
  then show ?thesis by (intro exI [of _ "ACalling k g"]) (simp add: advance_def)
next
  case finish
  then show ?thesis by (intro exI [of _ AFinished]) simp
next
  case (abandon us)
  then show ?thesis by (intro exI [of _ AFinished]) simp
qed

lemma align_continue_trace:
  "trace (align_continue w i s) = trace s \<or>
   \<not> terminate' s \<and> (\<exists>k g. trace (align_continue w i s) = trace s @ [AlignClaim k g])"
  by (cases rule: align_continue_cases [of s i w]; simp add: advance_def)

lemma flag_inv_align_continue:
  assumes "flag_inv s"
  shows "flag_inv (align_continue w i s)"
proof -
  obtain p where p: "alignWorkers (align_continue w i s) = (alignWorkers s)[w := p]" "p \<noteq> ARaised"
    using align_continue_workers [of w i s] by blast
  have "ARaised \<in> set (alignWorkers s)" if "ARaised \<in> set ((alignWorkers s)[w := p])"
    using that p(2) set_update_subset_insert [of "alignWorkers s" w p] by auto
  with assms show ?thesis
    by (auto simp add: flag_inv_def align_continue_frame p(1))
qed

lemma flag_inv_align_raise:
  assumes "failures es \<noteq> []"
  shows "flag_inv (align_raise w es s)"
  using assms by (simp add: flag_inv_def align_raise_def)

lemma flag_inv_slot:
  "flag_inv s \<Longrightarrow> failures es = [] \<Longrightarrow>
   flag_inv (s\<lparr>alignedSamples' := tbl, trace := trace s @ es\<rparr>)"
  by (auto simp add: flag_inv_def)

lemma flag_inv_align_step:
  assumes "flag_inv s"
  shows "flag_inv (alignSamples_step K w s)"
  using assms
  by (simp add: alignSamples_step_def flag_inv_align_continue flag_inv_align_raise flag_inv_slot
      split: apc.split option.split)

lemma flag_inv_align_exec: "flag_inv s \<Longrightarrow> flag_inv (alignSamples_exec K sched s)"
  unfolding alignSamples_exec_def
  by (induction sched arbitrary: s) (simp_all add: flag_inv_align_step)

text \<open>The checked access of line 135 never raises.\<close>

lemma handed_out_slot:
  assumes inv: "align_inv s" and h: "handed_out s i g"
  shows "slot_at (alignedSamples' s) g i = Some (alignedSamples' s ! g ! i)"
proof -
  from handed_out_not_prealigned [OF inv h]
  have i: "i < length (manifest' s)" and g: "g < length (graphSpecPaths' s)" by simp_all
  from g align_invD(7) [OF inv] have g': "g < length (alignedSamples' s)" by simp
  then have "alignedSamples' s ! g \<in> set (alignedSamples' s)" by simp
  from align_invD(8) [OF inv this] i g' show ?thesis by (simp add: slot_at_def)
qed

lemma align_step_range_errors:
  assumes inv: "align_inv s"
  shows "align_range_errors (trace (alignSamples_step K w s)) = align_range_errors (trace s)"
proof (cases "w < length (alignWorkers s)")
  case False
  then show ?thesis by (simp add: alignSamples_step_def)
next
  case w: True
  have cont: "align_range_errors (trace (align_continue w i t)) = align_range_errors (trace t)" for i t
    using align_continue_trace [of w i t] by auto
  show ?thesis
  proof (cases "alignWorkers s ! w")
    case (ACalling i g)
    from handed_out_slot [OF inv align_invD(6) [OF inv w ACalling]] w ACalling show ?thesis
      by (simp add: alignSamples_step_def align_raise_def cont split: option.split)
  qed (use w in \<open>simp_all add: alignSamples_step_def cont\<close>)
qed

lemma align_exec_range_errors:
  "align_inv s \<Longrightarrow>
   align_range_errors (trace (alignSamples_exec K sched s)) = align_range_errors (trace s)"
  unfolding alignSamples_exec_def
  by (induction sched arbitrary: s) (simp_all add: align_inv_step align_step_range_errors)

lemma align_step_length [simp]:
  "length (alignWorkers (alignSamples_step K w s)) = length (alignWorkers s)"
  by (simp add: alignSamples_step_def align_continue_frame align_raise_def
      split: apc.split option.split)

lemma align_exec_length [simp]:
  "length (alignWorkers (alignSamples_exec K sched s)) = length (alignWorkers s)"
  unfolding alignSamples_exec_def
  by (induction sched arbitrary: s) simp_all

section \<open>The start of the alignment phase\<close>

lemma open_stream_frame [simp]:
  "graphSpecPaths' (open_stream W) = graphSpecPaths' W"
  "manifest' (open_stream W) = manifest' W"
  "outputFilePath' (open_stream W) = outputFilePath' W"
  "outputFolderPath' (open_stream W) = outputFolderPath' W"
  "unalignedSamples' (open_stream W) = unalignedSamples' W"
  "alignedSamples' (open_stream W) = alignedSamples' W"
  "terminate' (open_stream W) = terminate' W"
  "firstPrinted' (open_stream W) = firstPrinted' W"
  "ungenotypedSamples (open_stream W) = ungenotypedSamples W"
  "alignWorkers (open_stream W) = alignWorkers W"
  "genoWorkers (open_stream W) = genoWorkers W"
  "trace (open_stream W) = trace W"
  by (simp_all add: open_stream_def)

lemma align_phase_start: "align_phase K n sched W = alignSamples_exec K sched (align_start n W)"
  by (simp add: align_phase_def)

lemma align_start_sel:
  assumes "Workflow_ctor gs ms ofile ofolder = Inr W"
  shows "graphSpecPaths' (align_start n W) = gs"
    "manifest' (align_start n W) = ms"
    "outputFilePath' (align_start n W) = ofile"
    "outputFolderPath' (align_start n W) = ofolder"
    "unalignedSamples' (align_start n W) = map (unaligned_of gs) ms"
    "alignedSamples' (align_start n W) = replicate (max 1 (length gs)) ms"
    "terminate' (align_start n W) = False"
    "firstPrinted' (align_start n W) = False"
    "alignWorkers (align_start n W) = replicate n AStart"
    "genoWorkers (align_start n W) = []"
    "trace (align_start n W) = []"
  by (simp_all add: align_start_def Workflow_ctor_Inr(1) [OF assms])

lemma align_start_cursor:
  assumes "Workflow_ctor gs ms ofile ofolder = Inr W" "i < length ms"
  shows "cursor (align_start n W) i = first_graph (align_start n W) i"
  using assms(2)
  by (simp add: cursor_def first_graph_def align_start_sel [OF assms(1)] unaligned_of_def)

lemma align_start_inv:
  assumes ctor: "Workflow_ctor gs ms ofile ofolder = Inr W"
  shows "align_inv (align_start n W)"
  unfolding align_inv_def
proof (intro conjI ballI allI impI)
  note sel = align_start_sel [OF ctor]
  show "map sample' (unalignedSamples' (align_start n W)) = manifest' (align_start n W)"
    by (simp add: sel unaligned_of_def comp_def)
  show "length (alignedSamples' (align_start n W)) = max 1 (length (graphSpecPaths' (align_start n W)))"
    by (simp add: sel)
  { fix i assume "i < length (manifest' (align_start n W))"
    then have i: "i < length ms" by (simp add: sel)
    show "first_graph (align_start n W) i \<le> cursor (align_start n W) i"
      by (simp add: align_start_cursor [OF ctor i])
    show "cursor (align_start n W) i \<le> length (graphSpecPaths' (align_start n W))"
      by (simp add: align_start_cursor [OF ctor i] first_graph_def) }
  { fix q assume "q \<in> set (align_claims (trace (align_start n W)))"
    then show "handed_out (align_start n W) (fst q) (snd q)" by (simp add: sel) }
  { fix w i g assume "w < length (alignWorkers (align_start n W))"
      "alignWorkers (align_start n W) ! w = ACalling i g"
    then show "handed_out (align_start n W) i g" by (simp add: sel) }
  { fix row assume "row \<in> set (alignedSamples' (align_start n W))"
    then show "length row = length (manifest' (align_start n W))" by (simp add: sel) }
  { fix i row assume "row \<in> set (alignedSamples' (align_start n W))"
    then show "row ! i = manifest' (align_start n W) ! i" by (simp add: sel) }
qed

lemma align_start_not_handed_out:
  assumes ctor: "Workflow_ctor gs ms ofile ofolder = Inr W"
  shows "\<not> handed_out (align_start n W) i g"
proof
  assume h: "handed_out (align_start n W) i g"
  then have "i < length ms" by (simp add: handed_out_def align_start_sel [OF ctor])
  from align_start_cursor [OF ctor this, of n] h show False by (auto simp add: handed_out_def)
qed

lemma align_start_exact:
  assumes ctor: "Workflow_ctor gs ms ofile ofolder = Inr W"
  shows "align_exact (align_start n W)"
  by (simp add: align_exact_def align_start_sel [OF ctor] align_start_not_handed_out [OF ctor])

lemma align_inflight_idle: "align_inflight (replicate n AStart) = {#}"
  by (induction n) (simp_all add: align_inflight_def)

lemma align_start_book:
  assumes ctor: "Workflow_ctor gs ms ofile ofolder = Inr W"
  shows "align_book (align_start n W)"
  by (simp add: align_book_def align_start_sel [OF ctor] align_inflight_idle)

lemma align_start_flag:
  assumes ctor: "Workflow_ctor gs ms ofile ofolder = Inr W"
  shows "flag_inv (align_start n W)"
  by (simp add: flag_inv_def align_start_sel [OF ctor])

text \<open>The invariants hold in every state of the alignment phase.\<close>

lemma align_phase_inv:
  assumes ctor: "Workflow_ctor gs ms ofile ofolder = Inr W"
  shows "align_inv (align_phase K n sched W)"
    and "align_exact (align_phase K n sched W)"
    and "align_book (align_phase K n sched W)"
    and "flag_inv (align_phase K n sched W)"
    and "align_range_errors (trace (align_phase K n sched W)) = []"
    and "length (alignWorkers (align_phase K n sched W)) = n"
  unfolding align_phase_start
  by (simp_all add: align_inv_exec align_exact_exec align_book_exec flag_inv_align_exec
      align_exec_range_errors align_start_inv [OF ctor] align_start_exact [OF ctor]
      align_start_book [OF ctor] align_start_flag [OF ctor] align_start_sel [OF ctor])

lemma align_inflight_joined:
  "list_all align_done ws \<Longrightarrow> align_inflight ws = {#}"
  by (induction ws) (auto simp add: align_inflight_def align_done_def)

lemma count_list_distinct:
  "distinct xs \<Longrightarrow> count_list xs x = (if x \<in> set xs then 1 else 0)"
  by (induction xs) auto

lemma align_step_frame [simp]:
  "graphSpecPaths' (alignSamples_step K w s) = graphSpecPaths' s"
  "manifest' (alignSamples_step K w s) = manifest' s"
  "outputFilePath' (alignSamples_step K w s) = outputFilePath' s"
  "outputFolderPath' (alignSamples_step K w s) = outputFolderPath' s"
  "fos (alignSamples_step K w s) = fos s"
  "firstPrinted' (alignSamples_step K w s) = firstPrinted' s"
  "ungenotypedSamples (alignSamples_step K w s) = ungenotypedSamples s"
  "genoWorkers (alignSamples_step K w s) = genoWorkers s"
  by (simp_all add: alignSamples_step_def align_continue_frame align_raise_def
      split: apc.split option.split)

lemma align_exec_frame [simp]:
  "graphSpecPaths' (alignSamples_exec K sched s) = graphSpecPaths' s"
  "manifest' (alignSamples_exec K sched s) = manifest' s"
  "outputFilePath' (alignSamples_exec K sched s) = outputFilePath' s"
  "outputFolderPath' (alignSamples_exec K sched s) = outputFolderPath' s"
  "fos (alignSamples_exec K sched s) = fos s"
  "firstPrinted' (alignSamples_exec K sched s) = firstPrinted' s"
  "ungenotypedSamples (alignSamples_exec K sched s) = ungenotypedSamples s"
  "genoWorkers (alignSamples_exec K sched s) = genoWorkers s"
  unfolding alignSamples_exec_def
  by (induction sched arbitrary: s; simp)+

fun is_align_event :: "event \<Rightarrow> bool" where
  "is_align_event (AlignClaim i g) = True"
| "is_align_event (AlignCall i g) = True"
| "is_align_event (AlignReturn i g) = True"
| "is_align_event (AlignThrow i g) = True"
| "is_align_event (AlignOutOfRange i g) = True"
| "is_align_event _ = False"

lemma align_continue_events:
  "list_all is_align_event (trace s) \<Longrightarrow>
   list_all is_align_event (trace (align_continue w i s))"
  using align_continue_trace [of w i s] by auto

lemma align_step_events:
  "list_all is_align_event (trace s) \<Longrightarrow>
   list_all is_align_event (trace (alignSamples_step K w s))"
  by (simp add: alignSamples_step_def align_continue_events align_raise_def
      split: apc.split option.split)

lemma align_exec_events:
  "list_all is_align_event (trace s) \<Longrightarrow>
   list_all is_align_event (trace (alignSamples_exec K sched s))"
  unfolding alignSamples_exec_def
  by (induction sched arbitrary: s) (simp_all add: align_step_events)

lemma align_failures:
  "list_all is_align_event tr \<Longrightarrow> align_throws tr = [] \<Longrightarrow> align_range_errors tr = [] \<Longrightarrow>
   failures tr = []"
proof (induction tr)
  case Nil
  then show ?case by simp
next
  case (Cons e tr)
  then show ?case by (cases e) simp_all
qed

lemma align_phase_events:
  assumes "Workflow_ctor gs ms ofile ofolder = Inr W"
  shows "list_all is_align_event (trace (align_phase K n sched W))"
  unfolding align_phase_start
  by (rule align_exec_events) (simp add: align_start_sel [OF assms])

lemma align_phase_sel:
  assumes "Workflow_ctor gs ms ofile ofolder = Inr W"
  shows "graphSpecPaths' (align_phase K n sched W) = gs"
    "manifest' (align_phase K n sched W) = ms"
    "outputFilePath' (align_phase K n sched W) = ofile"
    "outputFolderPath' (align_phase K n sched W) = ofolder"
    "firstPrinted' (align_phase K n sched W) = False"
    "genoWorkers (align_phase K n sched W) = []"
    "fos (align_phase K n sched W) = (if ofile \<noteq> [] \<and> 1 < length gs then ''['' else [])"
  unfolding align_phase_start
  by (simp_all add: align_start_sel [OF assms])
     (simp add: align_start_def open_stream_def framed_def Workflow_ctor_Inr(1) [OF assms])

lemma align_phase_complete:
  assumes ctor: "Workflow_ctor gs ms ofile ofolder = Inr W"
    and n: "0 < n"
    and joined: "align_joined (align_phase K n sched W)"
    and ok: "\<not> terminate' (align_phase K n sched W)"
    and i: "i < length ms"
  shows "cursor (align_phase K n sched W) i = length gs"
proof -
  define s where "s = align_phase K n sched W"
  note inv = align_phase_inv [OF ctor, of K n sched, folded s_def]
  have sel: "manifest' s = ms" "graphSpecPaths' s = gs"
    by (simp_all add: s_def align_phase_sel [OF ctor])
  from n inv(6) have w: "0 < length (alignWorkers s)" by simp
  then have "alignWorkers s ! 0 \<in> set (alignWorkers s)" by simp
  moreover from joined have "list_all align_done (alignWorkers s)"
    by (simp add: align_joined_def s_def)
  ultimately have d: "align_done (alignWorkers s ! 0)" by (simp add: list_all_iff)
  have "alignWorkers s ! 0 \<noteq> ARaised"
  proof
    assume "alignWorkers s ! 0 = ARaised"
    with w have "ARaised \<in> set (alignWorkers s)" by (metis nth_mem)
    with inv(4) ok show False by (simp add: flag_inv_def s_def)
  qed
  with d have "alignWorkers s ! 0 = AFinished" by (simp add: align_done_def)
  from align_exactD(4) [OF inv(2) _ w this, of i] ok i show ?thesis
    by (simp add: s_def [symmetric] sel)
qed

section \<open>The genotyping phase: what one critical section does\<close>

lemmas geno_step_defs =
  genotypeGraphs_step_def geno_continue_def genotypeGraphs_loop_def geno_raise_def
  append_record_def Let_def

lemma geno_step_frame [simp]:
  "graphSpecPaths' (genotypeGraphs_step K w s) = graphSpecPaths' s"
  "manifest' (genotypeGraphs_step K w s) = manifest' s"
  "outputFilePath' (genotypeGraphs_step K w s) = outputFilePath' s"
  "outputFolderPath' (genotypeGraphs_step K w s) = outputFolderPath' s"
  "unalignedSamples' (genotypeGraphs_step K w s) = unalignedSamples' s"
  "alignedSamples' (genotypeGraphs_step K w s) = alignedSamples' s"
  "alignWorkers (genotypeGraphs_step K w s) = alignWorkers s"
  "length (genoWorkers (genotypeGraphs_step K w s)) = length (genoWorkers s)"
  by (simp_all add: geno_step_defs split: gpc.split option.split)

lemma geno_exec_frame [simp]:
  "graphSpecPaths' (genotypeGraphs_exec K sched s) = graphSpecPaths' s"
  "manifest' (genotypeGraphs_exec K sched s) = manifest' s"
  "outputFilePath' (genotypeGraphs_exec K sched s) = outputFilePath' s"
  "outputFolderPath' (genotypeGraphs_exec K sched s) = outputFolderPath' s"
  "unalignedSamples' (genotypeGraphs_exec K sched s) = unalignedSamples' s"
  "alignedSamples' (genotypeGraphs_exec K sched s) = alignedSamples' s"
  "alignWorkers (genotypeGraphs_exec K sched s) = alignWorkers s"
  "length (genoWorkers (genotypeGraphs_exec K sched s)) = length (genoWorkers s)"
  unfolding genotypeGraphs_exec_def
  by (induction sched arbitrary: s; simp)+

lemma geno_step_align_events [simp]:
  "align_claims (trace (genotypeGraphs_step K w s)) = align_claims (trace s)"
  "align_calls (trace (genotypeGraphs_step K w s)) = align_calls (trace s)"
  "align_returns (trace (genotypeGraphs_step K w s)) = align_returns (trace s)"
  "align_throws (trace (genotypeGraphs_step K w s)) = align_throws (trace s)"
  "align_range_errors (trace (genotypeGraphs_step K w s)) = align_range_errors (trace s)"
  by (simp_all add: geno_step_defs split: gpc.split option.split)

lemma geno_exec_align_events [simp]:
  "align_claims (trace (genotypeGraphs_exec K sched s)) = align_claims (trace s)"
  "align_calls (trace (genotypeGraphs_exec K sched s)) = align_calls (trace s)"
  "align_returns (trace (genotypeGraphs_exec K sched s)) = align_returns (trace s)"
  "align_throws (trace (genotypeGraphs_exec K sched s)) = align_throws (trace s)"
  "align_range_errors (trace (genotypeGraphs_exec K sched s)) = align_range_errors (trace s)"
  unfolding genotypeGraphs_exec_def
  by (induction sched arbitrary: s; simp)+

lemma align_inv_cong:
  assumes "manifest' t = manifest' s" "graphSpecPaths' t = graphSpecPaths' s"
    "unalignedSamples' t = unalignedSamples' s" "alignedSamples' t = alignedSamples' s"
    "alignWorkers t = alignWorkers s" "align_claims (trace t) = align_claims (trace s)"
  shows "align_inv t = align_inv s"
  using assms by (simp add: align_inv_def handed_out_def first_graph_def cursor_def)

lemma align_inv_geno_exec:
  "align_inv (genotypeGraphs_exec K sched s) = align_inv s"
  by (rule align_inv_cong) simp_all

lemma geno_continue_cases [case_names exhausted claim abandon]:
  obtains
    (exhausted) "ungenotypedSamples s = length (alignedSamples' s)"
      "geno_continue w s = s\<lparr>genoWorkers := (genoWorkers s)[w := GFinished]\<rparr>"
  | (claim) "ungenotypedSamples s \<noteq> length (alignedSamples' s)" "\<not> terminate' s"
      "geno_continue w s =
         s\<lparr>ungenotypedSamples := ungenotypedSamples s + 1,
           genoWorkers := (genoWorkers s)[w := GCalling (ungenotypedSamples s)],
           trace := trace s @ [GenoClaim (ungenotypedSamples s)]\<rparr>"
  | (abandon) "ungenotypedSamples s \<noteq> length (alignedSamples' s)" "terminate' s"
      "geno_continue w s =
         s\<lparr>ungenotypedSamples := ungenotypedSamples s + 1,
           genoWorkers := (genoWorkers s)[w := GFinished]\<rparr>"
proof (cases "ungenotypedSamples s = length (alignedSamples' s)")
  case True
  with exhausted show ?thesis
    by (simp add: geno_continue_def genotypeGraphs_loop_def)
next
  case False
  show ?thesis
  proof (cases "terminate' s")
    case True
    with False abandon show ?thesis
      by (simp add: geno_continue_def genotypeGraphs_loop_def Let_def)
  next
    case clear: False
    with False claim show ?thesis
      by (simp add: geno_continue_def genotypeGraphs_loop_def Let_def)
  qed
qed

text \<open>The events of a genotyper call that returned, as lines 169--177 log them.\<close>

definition returned_events :: "Workflow \<Rightarrow> nat \<Rightarrow> string \<Rightarrow> event list" where
  "returned_events s g p =
     [GenoCall g p (alignedSamples' s ! g), GenoReturn g] @
     (if outputFolderPath' s \<noteq> [] then [OutputFile g] else [])"

lemma geno_step_cases [case_names idle start range throw nofile return]:
  obtains
    (idle) "genotypeGraphs_step K w s = s"
      "\<not> w < length (genoWorkers s) \<or> geno_done (genoWorkers s ! w)"
  | (start) "w < length (genoWorkers s)" "genoWorkers s ! w = GStart"
      "genotypeGraphs_step K w s = geno_continue w s"
  | (range) g where "w < length (genoWorkers s)" "genoWorkers s ! w = GCalling g"
      "graphSpecPath_at s g = None"
      "genotypeGraphs_step K w s = geno_raise w [GenoOutOfRange g] s"
  | (throw) g p where "w < length (genoWorkers s)" "genoWorkers s ! w = GCalling g"
      "graphSpecPath_at s g = Some p" "countAndGenotype K p (alignedSamples' s ! g) = None"
      "genotypeGraphs_step K w s =
         geno_raise w [GenoCall g p (alignedSamples' s ! g), GenoThrow g] s"
  | (nofile) g p out where "w < length (genoWorkers s)" "genoWorkers s ! w = GCalling g"
      "graphSpecPath_at s g = Some p" "countAndGenotype K p (alignedSamples' s ! g) = Some out"
      "outputFolderPath' s \<noteq> []" "\<not> openOutputFile K (outputFolderPath' s) p"
      "genotypeGraphs_step K w s =
         geno_raise w [GenoCall g p (alignedSamples' s ! g), GenoReturn g, OutputFileThrow g] s"
  | (return) g p out where "w < length (genoWorkers s)" "genoWorkers s ! w = GCalling g"
      "graphSpecPath_at s g = Some p" "countAndGenotype K p (alignedSamples' s ! g) = Some out"
      "genotypeGraphs_step K w s =
         geno_continue w (append_record K g out (s\<lparr>trace := trace s @ returned_events s g p\<rparr>))"
proof (cases "w < length (genoWorkers s)")
  case False
  with idle show ?thesis by (simp add: genotypeGraphs_step_def)
next
  case w: True
  show ?thesis
  proof (cases "genoWorkers s ! w")
    case GStart
    with w start show ?thesis by (simp add: genotypeGraphs_step_def)
  next
    case GFinished
    with w idle show ?thesis by (simp add: genotypeGraphs_step_def geno_done_def)
  next
    case GRaised
    with w idle show ?thesis by (simp add: genotypeGraphs_step_def geno_done_def)
  next
    case (GCalling g)
    show ?thesis
    proof (cases "graphSpecPath_at s g")
      case None
      with w GCalling range show ?thesis by (simp add: genotypeGraphs_step_def)
    next
      case (Some p)
      show ?thesis
      proof (cases "countAndGenotype K p (alignedSamples' s ! g)")
        case None
        with w GCalling Some throw show ?thesis by (simp add: genotypeGraphs_step_def)
      next
        case out: (Some out)
        show ?thesis
        proof (cases "outputFolderPath' s \<noteq> [] \<and> \<not> openOutputFile K (outputFolderPath' s) p")
          case True
          with w GCalling Some out nofile [of g p out] show ?thesis
            by (simp add: genotypeGraphs_step_def)
        next
          case False
          with w GCalling Some out return [of g p out] show ?thesis
            by (auto simp add: genotypeGraphs_step_def returned_events_def)
        qed
      qed
    qed
  qed
qed

subsection \<open>Projections of the trace\<close>

definition project :: "(event \<Rightarrow> 'a list) \<Rightarrow> event list \<Rightarrow> 'a list" where
  "project f tr = concat (map f tr)"

lemma project_simps [simp]:
  "project f [] = []"
  "project f (e # tr) = f e @ project f tr"
  "project f (tr @ tr') = project f tr @ project f tr'"
  by (simp_all add: project_def)

fun geno_claim_of :: "event \<Rightarrow> nat list" where
  "geno_claim_of (GenoClaim g) = [g]"
| "geno_claim_of _ = []"

fun geno_call_of :: "event \<Rightarrow> (nat \<times> string \<times> Samples) list" where
  "geno_call_of (GenoCall g p row) = [(g, p, row)]"
| "geno_call_of _ = []"

fun geno_return_of :: "event \<Rightarrow> nat list" where
  "geno_return_of (GenoReturn g) = [g]"
| "geno_return_of _ = []"

fun geno_throw_of :: "event \<Rightarrow> nat list" where
  "geno_throw_of (GenoThrow g) = [g]"
| "geno_throw_of _ = []"

fun geno_range_error_of :: "event \<Rightarrow> nat list" where
  "geno_range_error_of (GenoOutOfRange g) = [g]"
| "geno_range_error_of _ = []"

fun file_throw_of :: "event \<Rightarrow> nat list" where
  "file_throw_of (OutputFileThrow g) = [g]"
| "file_throw_of _ = []"

fun append_of :: "event \<Rightarrow> (nat \<times> string) list" where
  "append_of (Append g text) = [(g, text)]"
| "append_of _ = []"

abbreviation geno_claims :: "event list \<Rightarrow> nat list" where
  "geno_claims \<equiv> project geno_claim_of"

abbreviation geno_calls :: "event list \<Rightarrow> (nat \<times> string \<times> Samples) list" where
  "geno_calls \<equiv> project geno_call_of"

abbreviation geno_returns :: "event list \<Rightarrow> nat list" where
  "geno_returns \<equiv> project geno_return_of"

abbreviation geno_throws :: "event list \<Rightarrow> nat list" where
  "geno_throws \<equiv> project geno_throw_of"

abbreviation geno_range_errors :: "event list \<Rightarrow> nat list" where
  "geno_range_errors \<equiv> project geno_range_error_of"

abbreviation file_throws :: "event list \<Rightarrow> nat list" where
  "file_throws \<equiv> project file_throw_of"

abbreviation appended :: "event list \<Rightarrow> (nat \<times> string) list" where
  "appended \<equiv> project append_of"

subsection \<open>The invariant of the genotyping phase\<close>

definition geno_inv :: "Workflow \<Rightarrow> bool" where
  "geno_inv s \<longleftrightarrow>
     ungenotypedSamples s \<le> length (alignedSamples' s) \<and>
     (\<forall>w < length (genoWorkers s). \<forall>g.
        genoWorkers s ! w = GCalling g \<longrightarrow> g < ungenotypedSamples s) \<and>
     (\<exists>k \<le> ungenotypedSamples s. geno_claims (trace s) = [0..<k]) \<and>
     (\<not> terminate' s \<longrightarrow> geno_claims (trace s) = [0..<ungenotypedSamples s]) \<and>
     (geno_claims (trace s) = [] \<and> alignedSamples' s \<noteq> [] \<longrightarrow>
        \<not> terminate' s \<and> ungenotypedSamples s = 0 \<and>
        (\<forall>p \<in> set (genoWorkers s). p = GStart)) \<and>
     (\<forall>c \<in> set (geno_calls (trace s)).
        graphSpecPath_at s (fst c) = Some (fst (snd c)) \<and>
        snd (snd c) = alignedSamples' s ! fst c)"

lemma geno_invD:
  assumes "geno_inv s"
  shows "ungenotypedSamples s \<le> length (alignedSamples' s)"
    and "w < length (genoWorkers s) \<Longrightarrow> genoWorkers s ! w = GCalling g \<Longrightarrow>
         g < ungenotypedSamples s"
    and "\<exists>k \<le> ungenotypedSamples s. geno_claims (trace s) = [0..<k]"
    and "\<not> terminate' s \<Longrightarrow> geno_claims (trace s) = [0..<ungenotypedSamples s]"
    and "geno_claims (trace s) = [] \<Longrightarrow> alignedSamples' s \<noteq> [] \<Longrightarrow>
         \<not> terminate' s \<and> ungenotypedSamples s = 0 \<and> (\<forall>p \<in> set (genoWorkers s). p = GStart)"
    and "c \<in> set (geno_calls (trace s)) \<Longrightarrow>
         graphSpecPath_at s (fst c) = Some (fst (snd c)) \<and> snd (snd c) = alignedSamples' s ! fst c"
  using assms unfolding geno_inv_def by blast+

text \<open>
  A change of the cursor, the flag, the stream, the workers and the trace keeps the
  invariant under the conditions that the critical sections meet.
\<close>

lemma geno_inv_update:
  assumes inv: "geno_inv s"
    and c: "c = ungenotypedSamples s \<or>
            c = ungenotypedSamples s + 1 \<and> ungenotypedSamples s \<noteq> length (alignedSamples' s)"
    and p: "p = GFinished \<or> p = GRaised \<or> p = GCalling (ungenotypedSamples s) \<and> c = ungenotypedSamples s + 1"
    and w: "w < length (genoWorkers s)"
    and first: "geno_claims (trace s) = [] \<Longrightarrow> alignedSamples' s \<noteq> [] \<Longrightarrow>
                c \<noteq> ungenotypedSamples s"
    and claims: "geno_claims es = [] \<and> (c = ungenotypedSamples s \<or> terminate' s) \<or>
                 geno_claims es = [ungenotypedSamples s] \<and> c = ungenotypedSamples s + 1 \<and> \<not> terminate' s"
    and calls: "\<forall>c \<in> set (geno_calls es).
        graphSpecPath_at s (fst c) = Some (fst (snd c)) \<and> snd (snd c) = alignedSamples' s ! fst c"
    and b: "terminate' s \<longrightarrow> b"
  shows "geno_inv (s\<lparr>ungenotypedSamples := c, terminate' := b, firstPrinted' := f, fos := out,
                    genoWorkers := (genoWorkers s)[w := p], trace := trace s @ es\<rparr>)"
proof -
  define t where "t = s\<lparr>ungenotypedSamples := c, terminate' := b, firstPrinted' := f, fos := out,
                    genoWorkers := (genoWorkers s)[w := p], trace := trace s @ es\<rparr>"
  have sel: "ungenotypedSamples t = c" "terminate' t = b" "alignedSamples' t = alignedSamples' s"
    "genoWorkers t = (genoWorkers s)[w := p]" "trace t = trace s @ es"
    "\<And>g. graphSpecPath_at t g = graphSpecPath_at s g"
    by (simp_all add: t_def graphSpecPath_at_def)
  from c geno_invD(1) [OF inv] have 1: "c \<le> length (alignedSamples' s)" by auto
  from c have mono: "ungenotypedSamples s \<le> c" by auto
  have 2: "g < c" if "v < length (genoWorkers t)" "genoWorkers t ! v = GCalling g" for v g
  proof (cases "v = w")
    case True
    with that p w show ?thesis by (auto simp add: sel)
  next
    case False
    with that geno_invD(2) [OF inv, of v g] mono show ?thesis by (simp add: sel)
  qed
  from geno_invD(3) [OF inv] obtain k where k: "k \<le> ungenotypedSamples s" "geno_claims (trace s) = [0..<k]"
    by blast
  have 4: "geno_claims (trace t) = [0..<c]" if "\<not> b"
  proof -
    from that b have nt: "\<not> terminate' s" by auto
    from geno_invD(4) [OF inv nt] claims nt show ?thesis by (auto simp add: sel)
  qed
  have 3: "\<exists>k \<le> c. geno_claims (trace t) = [0..<k]"
  proof (cases "geno_claims es = []")
    case True
    with k mono show ?thesis by (intro exI [of _ k]) (simp add: sel)
  next
    case False
    with claims have e: "geno_claims es = [ungenotypedSamples s]" "c = ungenotypedSamples s + 1" "\<not> terminate' s"
      by auto
    from geno_invD(4) [OF inv e(3)] e show ?thesis
      by (intro exI [of _ c]) (simp add: sel)
  qed
  have 5: "\<not> b \<and> c = 0 \<and> (\<forall>q \<in> set (genoWorkers t). q = GStart)"
    if "geno_claims (trace t) = []" "alignedSamples' t \<noteq> []"
  proof -
    from that have e: "geno_claims (trace s) = []" "geno_claims es = []" "alignedSamples' s \<noteq> []"
      by (simp_all add: sel)
    from geno_invD(5) [OF inv e(1) e(3)]
    have s: "\<not> terminate' s" "ungenotypedSamples s = 0" "\<forall>q \<in> set (genoWorkers s). q = GStart"
      by simp_all
    from first [OF e(1) e(3)] have "c \<noteq> ungenotypedSamples s" .
    with claims e(2) s(1) show ?thesis by auto
  qed
  have 6: "graphSpecPath_at t (fst x) = Some (fst (snd x)) \<and> snd (snd x) = alignedSamples' t ! fst x"
    if "x \<in> set (geno_calls (trace t))" for x
  proof -
    from that have "x \<in> set (geno_calls (trace s)) \<or> x \<in> set (geno_calls es)"
      by (auto simp add: sel)
    then show ?thesis
    proof
      assume "x \<in> set (geno_calls (trace s))"
      from geno_invD(6) [OF inv this] show ?thesis by (simp add: sel)
    next
      assume "x \<in> set (geno_calls es)"
      with calls show ?thesis by (simp add: sel)
    qed
  qed
  have "geno_inv t"
    unfolding geno_inv_def
  proof (intro conjI allI impI ballI)
    show "ungenotypedSamples t \<le> length (alignedSamples' t)" using 1 by (simp add: sel)
    show "\<exists>k \<le> ungenotypedSamples t. geno_claims (trace t) = [0..<k]"
      using 3 by (simp only: sel(1))
  next
    fix v g assume "v < length (genoWorkers t)" "genoWorkers t ! v = GCalling g"
    from 2 [OF this] show "g < ungenotypedSamples t" by (simp only: sel(1))
  next
    assume "\<not> terminate' t"
    then have "\<not> b" by (simp add: sel(2))
    from 4 [OF this] show "geno_claims (trace t) = [0..<ungenotypedSamples t]"
      by (simp only: sel(1))
  next
    assume a: "geno_claims (trace t) = [] \<and> alignedSamples' t \<noteq> []"
    then have a': "geno_claims (trace t) = []" "alignedSamples' t \<noteq> []" by blast+
    from 5 [OF a'] show "\<not> terminate' t" by (simp add: sel(2))
    from 5 [OF a'] show "ungenotypedSamples t = 0" by (simp add: sel(1))
    fix q assume "q \<in> set (genoWorkers t)"
    with 5 [OF a'] show "q = GStart" by blast
  next
    fix x assume x: "x \<in> set (geno_calls (trace t))"
    from 6 [OF x] show "graphSpecPath_at t (fst x) = Some (fst (snd x))" by blast
    from 6 [OF x] show "snd (snd x) = alignedSamples' t ! fst x" by blast
  qed
  then show ?thesis by (simp only: t_def)
qed

lemma geno_inv_events:
  assumes inv: "geno_inv s" and claims: "geno_claims es = []"
    and calls: "\<forall>c \<in> set (geno_calls es).
        graphSpecPath_at s (fst c) = Some (fst (snd c)) \<and> snd (snd c) = alignedSamples' s ! fst c"
  shows "geno_inv (s\<lparr>firstPrinted' := f, fos := out, trace := trace s @ es\<rparr>)"
proof -
  define t where "t = s\<lparr>firstPrinted' := f, fos := out, trace := trace s @ es\<rparr>"
  have sel: "ungenotypedSamples t = ungenotypedSamples s" "terminate' t = terminate' s"
    "alignedSamples' t = alignedSamples' s" "genoWorkers t = genoWorkers s"
    "geno_claims (trace t) = geno_claims (trace s)"
    "\<And>g. graphSpecPath_at t g = graphSpecPath_at s g"
    by (simp_all add: t_def graphSpecPath_at_def claims)
  have 6: "graphSpecPath_at t (fst x) = Some (fst (snd x)) \<and> snd (snd x) = alignedSamples' t ! fst x"
    if "x \<in> set (geno_calls (trace t))" for x
  proof -
    from that have "x \<in> set (geno_calls (trace s)) \<or> x \<in> set (geno_calls es)"
      by (auto simp add: t_def)
    then show ?thesis
    proof
      assume "x \<in> set (geno_calls (trace s))"
      from geno_invD(6) [OF inv this] show ?thesis by (simp add: sel)
    next
      assume "x \<in> set (geno_calls es)"
      with calls show ?thesis by (simp add: sel)
    qed
  qed
  have "geno_inv t"
    unfolding geno_inv_def sel
  proof (intro conjI allI impI ballI)
    show "ungenotypedSamples s \<le> length (alignedSamples' s)" by (rule geno_invD(1) [OF inv])
    show "\<exists>k \<le> ungenotypedSamples s. geno_claims (trace s) = [0..<k]"
      by (rule geno_invD(3) [OF inv])
  next
    fix v g assume "v < length (genoWorkers s)" "genoWorkers s ! v = GCalling g"
    then show "g < ungenotypedSamples s" by (rule geno_invD(2) [OF inv])
  next
    assume "\<not> terminate' s"
    then show "geno_claims (trace s) = [0..<ungenotypedSamples s]" by (rule geno_invD(4) [OF inv])
  next
    assume a: "geno_claims (trace s) = [] \<and> alignedSamples' s \<noteq> []"
    then have a': "geno_claims (trace s) = []" "alignedSamples' s \<noteq> []" by blast+
    from geno_invD(5) [OF inv a'] show "\<not> terminate' s" by blast
    from geno_invD(5) [OF inv a'] show "ungenotypedSamples s = 0" by blast
    fix q assume "q \<in> set (genoWorkers s)"
    with geno_invD(5) [OF inv a'] show "q = GStart" by blast
  next
    fix x assume x: "x \<in> set (geno_calls (trace t))"
    from 6 [OF x] show "graphSpecPath_at s (fst x) = Some (fst (snd x))" by (simp add: sel)
    from 6 [OF x] show "snd (snd x) = alignedSamples' s ! fst x" by (simp add: sel)
  qed
  then show ?thesis by (simp only: t_def)
qed

lemma geno_inv_continue:
  assumes inv: "geno_inv s" and w: "w < length (genoWorkers s)"
  shows "geno_inv (geno_continue w s)"
proof (cases rule: geno_continue_cases [of s w])
  case exhausted
  have "geno_inv (s\<lparr>ungenotypedSamples := ungenotypedSamples s, terminate' := terminate' s,
          firstPrinted' := firstPrinted' s, fos := fos s,
          genoWorkers := (genoWorkers s)[w := GFinished], trace := trace s @ []\<rparr>)"
  proof (rule geno_inv_update [OF inv _ _ w])
    assume "geno_claims (trace s) = []" "alignedSamples' s \<noteq> []"
    from geno_invD(5) [OF inv this] exhausted(1) this(2)
    show "ungenotypedSamples s \<noteq> ungenotypedSamples s" by simp
  qed simp_all
  then have "geno_inv (s\<lparr>genoWorkers := (genoWorkers s)[w := GFinished]\<rparr>)" by simp
  with exhausted(2) show ?thesis by simp
next
  case claim
  have "geno_inv (s\<lparr>ungenotypedSamples := ungenotypedSamples s + 1, terminate' := terminate' s,
          firstPrinted' := firstPrinted' s, fos := fos s,
          genoWorkers := (genoWorkers s)[w := GCalling (ungenotypedSamples s)],
          trace := trace s @ [GenoClaim (ungenotypedSamples s)]\<rparr>)"
    by (rule geno_inv_update [OF inv _ _ w]) (use claim in simp_all)
  then have "geno_inv (s\<lparr>ungenotypedSamples := ungenotypedSamples s + 1,
          genoWorkers := (genoWorkers s)[w := GCalling (ungenotypedSamples s)],
          trace := trace s @ [GenoClaim (ungenotypedSamples s)]\<rparr>)" by simp
  with claim(3) show ?thesis by simp
next
  case abandon
  have "geno_inv (s\<lparr>ungenotypedSamples := ungenotypedSamples s + 1, terminate' := terminate' s,
          firstPrinted' := firstPrinted' s, fos := fos s,
          genoWorkers := (genoWorkers s)[w := GFinished], trace := trace s @ []\<rparr>)"
    by (rule geno_inv_update [OF inv _ _ w]) (use abandon in simp_all)
  then have "geno_inv (s\<lparr>ungenotypedSamples := ungenotypedSamples s + 1,
          genoWorkers := (genoWorkers s)[w := GFinished]\<rparr>)" by simp
  with abandon(3) show ?thesis by simp
qed

lemma geno_inv_raise:
  assumes inv: "geno_inv s" and w: "w < length (genoWorkers s)"
    and pc: "genoWorkers s ! w = GCalling g"
    and claims: "geno_claims es = []"
    and calls: "\<forall>c \<in> set (geno_calls es).
        graphSpecPath_at s (fst c) = Some (fst (snd c)) \<and> snd (snd c) = alignedSamples' s ! fst c"
  shows "geno_inv (geno_raise w es s)"
proof -
  have "geno_inv (s\<lparr>ungenotypedSamples := ungenotypedSamples s, terminate' := True,
          firstPrinted' := firstPrinted' s, fos := fos s,
          genoWorkers := (genoWorkers s)[w := GRaised], trace := trace s @ es\<rparr>)"
  proof (rule geno_inv_update [OF inv _ _ w])
    assume a: "geno_claims (trace s) = []" "alignedSamples' s \<noteq> []"
    from w have "genoWorkers s ! w \<in> set (genoWorkers s)" by simp
    with geno_invD(5) [OF inv a] pc show "ungenotypedSamples s \<noteq> ungenotypedSamples s" by auto
  qed (use claims calls in simp_all)
  then show ?thesis by (simp add: geno_raise_def)
qed

lemma geno_inv_cong:
  assumes "ungenotypedSamples t = ungenotypedSamples s" "terminate' t = terminate' s"
    "alignedSamples' t = alignedSamples' s" "genoWorkers t = genoWorkers s"
    "graphSpecPaths' t = graphSpecPaths' s" "trace t = trace s"
  shows "geno_inv t = geno_inv s"
  unfolding geno_inv_def graphSpecPath_at_def by (simp only: assms)

lemma geno_inv_append:
  assumes inv: "geno_inv s" and w: "w < length (genoWorkers s)"
    and p: "graphSpecPath_at s g = Some p"
  shows "geno_inv (append_record K g out (s\<lparr>trace := trace s @ returned_events s g p\<rparr>))"
proof -
  define es where
    "es = returned_events s g p @ (if outputFilePath' s \<noteq> [] then [Append g (writeJson K out)] else [])"
  have "geno_inv (s\<lparr>firstPrinted' := firstPrinted' s, fos := fos s, trace := trace s @ es\<rparr>)"
    by (rule geno_inv_events [OF inv]) (use p in \<open>simp_all add: es_def returned_events_def\<close>)
  also have "geno_inv (s\<lparr>firstPrinted' := firstPrinted' s, fos := fos s, trace := trace s @ es\<rparr>) =
     geno_inv (append_record K g out (s\<lparr>trace := trace s @ returned_events s g p\<rparr>))"
    by (rule geno_inv_cong) (simp_all add: append_record_def es_def)
  finally show ?thesis .
qed

lemma geno_inv_step:
  assumes inv: "geno_inv s"
  shows "geno_inv (genotypeGraphs_step K w s)"
proof (cases rule: geno_step_cases [of K w s])
  case idle
  with inv show ?thesis by simp
next
  case start
  with geno_inv_continue [OF inv] show ?thesis by simp
next
  case (range g)
  with geno_inv_raise [OF inv range(1,2)] show ?thesis by simp
next
  case (throw g p)
  with geno_inv_raise [OF inv throw(1,2)] show ?thesis by simp
next
  case (nofile g p out)
  with geno_inv_raise [OF inv nofile(1,2)] show ?thesis by simp
next
  case (return g p out)
  from geno_inv_append [OF inv return(1,3)]
  have "geno_inv (append_record K g out (s\<lparr>trace := trace s @ returned_events s g p\<rparr>))" .
  moreover have "w < length (genoWorkers (append_record K g out (s\<lparr>trace := trace s @ returned_events s g p\<rparr>)))"
    using return(1) by (simp add: append_record_def)
  ultimately show ?thesis using return(5) by (simp add: geno_inv_continue)
qed

lemma geno_inv_exec: "geno_inv s \<Longrightarrow> geno_inv (genotypeGraphs_exec K sched s)"
  unfolding genotypeGraphs_exec_def
  by (induction sched arbitrary: s) (simp_all add: geno_inv_step)

subsection \<open>The flag, the stream and the trace in the genotyping phase\<close>

lemma geno_continue_frame:
  "terminate' (geno_continue w s) = terminate' s"
  "failures (trace (geno_continue w s)) = failures (trace s)"
  "alignWorkers (geno_continue w s) = alignWorkers s"
  "fos (geno_continue w s) = fos s"
  "firstPrinted' (geno_continue w s) = firstPrinted' s"
  "outputFilePath' (geno_continue w s) = outputFilePath' s"
  "appended (trace (geno_continue w s)) = appended (trace s)"
  "length (genoWorkers (geno_continue w s)) = length (genoWorkers s)"
  by (cases rule: geno_continue_cases [of s w]; simp)+

lemma geno_continue_workers:
  "\<exists>p. genoWorkers (geno_continue w s) = (genoWorkers s)[w := p] \<and> p \<noteq> GRaised"
proof (cases rule: geno_continue_cases [of s w])
  case exhausted
  then show ?thesis by (intro exI [of _ GFinished]) simp
next
  case claim
  then show ?thesis by (intro exI [of _ "GCalling (ungenotypedSamples s)"]) simp
next
  case abandon
  then show ?thesis by (intro exI [of _ GFinished]) simp
qed

lemma geno_continue_trace:
  "trace (geno_continue w s) = trace s \<or>
   \<not> terminate' s \<and> trace (geno_continue w s) = trace s @ [GenoClaim (ungenotypedSamples s)]"
  by (cases rule: geno_continue_cases [of s w]; simp)

lemma flag_inv_geno_continue:
  assumes "flag_inv s"
  shows "flag_inv (geno_continue w s)"
proof -
  obtain p where p: "genoWorkers (geno_continue w s) = (genoWorkers s)[w := p]" "p \<noteq> GRaised"
    using geno_continue_workers [of w s] by blast
  have "GRaised \<in> set (genoWorkers s)" if "GRaised \<in> set ((genoWorkers s)[w := p])"
    using that p(2) set_update_subset_insert [of "genoWorkers s" w p] by auto
  with assms show ?thesis
    by (auto simp add: flag_inv_def geno_continue_frame p(1))
qed

lemma flag_inv_geno_raise:
  assumes "failures es \<noteq> []"
  shows "flag_inv (geno_raise w es s)"
  using assms by (simp add: flag_inv_def geno_raise_def)

lemma failures_returned [simp]: "failures (returned_events s g p) = []"
  by (simp add: returned_events_def)

lemma flag_inv_append:
  "flag_inv s \<Longrightarrow>
   flag_inv (append_record K g out (s\<lparr>trace := trace s @ returned_events s g p\<rparr>))"
  by (auto simp add: flag_inv_def append_record_def)

lemma flag_inv_geno_step:
  assumes "flag_inv s"
  shows "flag_inv (genotypeGraphs_step K w s)"
  by (cases rule: geno_step_cases [of K w s])
     (simp_all add: assms flag_inv_geno_continue flag_inv_geno_raise flag_inv_append)

lemma flag_inv_geno_exec: "flag_inv s \<Longrightarrow> flag_inv (genotypeGraphs_exec K sched s)"
  unfolding genotypeGraphs_exec_def
  by (induction sched arbitrary: s) (simp_all add: flag_inv_geno_step)

text \<open>The records of the combined stream, separated by single commas.\<close>

fun join_records :: "string list \<Rightarrow> string" where
  "join_records [] = []"
| "join_records [r] = r"
| "join_records (r # r' # rs) = r @ '','' @ join_records (r' # rs)"

lemma join_records_snoc:
  "join_records (rs @ [r]) = (if rs = [] then r else join_records rs @ '','' @ r)"
  by (induction rs rule: join_records.induct) simp_all

definition stream_inv :: "string \<Rightarrow> Workflow \<Rightarrow> bool" where
  "stream_inv base s \<longleftrightarrow>
     fos s = base @ join_records (map snd (appended (trace s))) \<and>
     (firstPrinted' s \<longleftrightarrow> appended (trace s) \<noteq> []) \<and>
     (outputFilePath' s = [] \<longrightarrow> appended (trace s) = [])"

lemma appended_returned [simp]: "appended (returned_events s g p) = []"
  by (simp add: returned_events_def)

lemma stream_inv_geno_continue:
  "stream_inv base s \<Longrightarrow> stream_inv base (geno_continue w s)"
  by (simp add: stream_inv_def geno_continue_frame)

lemma stream_inv_geno_raise:
  "stream_inv base s \<Longrightarrow> appended es = [] \<Longrightarrow> stream_inv base (geno_raise w es s)"
  by (simp add: stream_inv_def geno_raise_def)

lemma stream_inv_append:
  "stream_inv base s \<Longrightarrow>
   stream_inv base (append_record K g out (s\<lparr>trace := trace s @ returned_events s g p\<rparr>))"
  by (auto simp add: stream_inv_def append_record_def join_records_snoc)

lemma stream_inv_geno_step:
  assumes "stream_inv base s"
  shows "stream_inv base (genotypeGraphs_step K w s)"
  by (cases rule: geno_step_cases [of K w s])
     (simp_all add: assms stream_inv_geno_continue stream_inv_geno_raise stream_inv_append)

lemma stream_inv_geno_exec:
  "stream_inv base s \<Longrightarrow> stream_inv base (genotypeGraphs_exec K sched s)"
  unfolding genotypeGraphs_exec_def
  by (induction sched arbitrary: s) (simp_all add: stream_inv_geno_step)

text \<open>A critical section of the genotyping phase appends events of that phase only.\<close>

fun is_geno_event :: "event \<Rightarrow> bool" where
  "is_geno_event (AlignClaim i g) = False"
| "is_geno_event (AlignCall i g) = False"
| "is_geno_event (AlignReturn i g) = False"
| "is_geno_event (AlignThrow i g) = False"
| "is_geno_event (AlignOutOfRange i g) = False"
| "is_geno_event _ = True"

lemma geno_step_trace:
  "\<exists>es. trace (genotypeGraphs_step K w s) = trace s @ es \<and> list_all is_geno_event es"
proof -
  have cont: "\<exists>es. trace (geno_continue w t) = trace t @ es \<and> list_all is_geno_event es" for t
    using geno_continue_trace [of w t] by auto
  have app: "\<exists>es. trace (geno_continue w (append_record K g out (s\<lparr>trace := trace s @ returned_events s g p\<rparr>))) =
      trace s @ es \<and> list_all is_geno_event es" for g out p
  proof -
    define t where "t = append_record K g out (s\<lparr>trace := trace s @ returned_events s g p\<rparr>)"
    obtain es where es: "trace (geno_continue w t) = trace t @ es" "list_all is_geno_event es"
      using cont [of t] by blast
    have "\<exists>es'. trace t = trace s @ es' \<and> list_all is_geno_event es'"
      by (simp add: t_def append_record_def returned_events_def)
    then obtain es' where "trace t = trace s @ es'" "list_all is_geno_event es'" by blast
    with es show ?thesis
      unfolding t_def [symmetric] by (intro exI [of _ "es' @ es"]) simp
  qed
  show ?thesis
    by (cases rule: geno_step_cases [of K w s]) (simp_all add: cont app geno_raise_def)
qed

lemma geno_exec_trace:
  "\<exists>es. trace (genotypeGraphs_exec K sched s) = trace s @ es \<and> list_all is_geno_event es"
  unfolding genotypeGraphs_exec_def
proof (induction sched arbitrary: s)
  case Nil
  show ?case by simp
next
  case (Cons w sched)
  obtain es where es: "trace (genotypeGraphs_step K w s) = trace s @ es" "list_all is_geno_event es"
    using geno_step_trace [of K w s] by blast
  obtain es' where "trace (fold (genotypeGraphs_step K) sched (genotypeGraphs_step K w s)) =
      trace (genotypeGraphs_step K w s) @ es'" "list_all is_geno_event es'"
    using Cons.IH [of "genotypeGraphs_step K w s"] by blast
  with es show ?case by (intro exI [of _ "es @ es'"]) simp
qed

section \<open>A run on concrete inputs\<close>

definition demo_sample :: "string \<Rightarrow> SampleInfo" where
  "demo_sample name =
     \<lparr>sample_name = name, filename = name @ ''.bam'', index_filename = name @ ''.bam.bai'',
      alignment_data = None\<rparr>"

definition demo_collab :: Collab where
  "demo_collab =
     \<lparr>alignSingleSample = (\<lambda>graph smp. Some (smp\<lparr>alignment_data := Some graph\<rparr>)),
      countAndGenotype = (\<lambda>graph row. Some (''{'' @ graph @ ''}'')),
      writeJson = (\<lambda>json. json),
      openOutputFile = (\<lambda>folder graph. True),
      openSink = (\<lambda>path. True)\<rparr>"

definition demo_manifest :: Samples where
  "demo_manifest = [demo_sample ''x'', demo_sample ''y'', demo_sample ''z'']"

definition demo_workflow :: Workflow where
  "demo_workflow =
     \<lparr>graphSpecPaths' = [''a'', ''b''], manifest' = demo_manifest,
      outputFilePath' = ''-'', outputFolderPath' = [],
      unalignedSamples' = map (unaligned_of [''a'', ''b'']) demo_manifest,
      alignedSamples' = [demo_manifest, demo_manifest],
      terminate' = False, firstPrinted' = False, ungenotypedSamples = 0,
      fos = [], alignWorkers = [], genoWorkers = [], trace = []\<rparr>"

lemma demo_workflow_ctor:
  "Workflow_ctor [''a'', ''b''] demo_manifest ''-'' [] = Inr demo_workflow"
  by code_simp

subsection \<open>What the table holds\<close>

lemma align_claims_distinct_step:
  assumes inv: "align_inv s" and d: "distinct (align_claims (trace s))"
  shows "distinct (align_claims (trace (alignSamples_step K w s)))"
proof -
  have cont: "distinct (align_claims (trace (align_continue w i t)))"
    if t: "align_inv t" "distinct (align_claims (trace t))" for i t
  proof (cases rule: align_continue_cases [of t i w])
    case (claim k g)
    have "(k, g) \<notin> set (align_claims (trace t))"
    proof
      assume "(k, g) \<in> set (align_claims (trace t))"
      from align_invD(5) [OF t(1) this] claim(4) show False by (simp add: handed_out_def)
    qed
    with t(2) claim(7) show ?thesis by (simp add: advance_def)
  next
    case finish
    with t(2) show ?thesis by simp
  next
    case (abandon us)
    with t(2) show ?thesis by simp
  qed
  show ?thesis
  proof (cases "w < length (alignWorkers s)")
    case False
    with d show ?thesis by (simp add: alignSamples_step_def)
  next
    case w: True
    show ?thesis
    proof (cases "alignWorkers s ! w")
      case AStart
      with w cont [OF inv d] show ?thesis by (simp add: alignSamples_step_def)
    next
      case AFinished
      with w d show ?thesis by (simp add: alignSamples_step_def)
    next
      case ARaised
      with w d show ?thesis by (simp add: alignSamples_step_def)
    next
      case (ACalling i g)
      from align_invD(6) [OF inv w ACalling] have h: "handed_out s i g" .
      from handed_out_slot [OF inv h]
      have slot: "slot_at (alignedSamples' s) g i = Some (alignedSamples' s ! g ! i)" .
      then have g: "g < length (alignedSamples' s)" by (simp add: slot_at_Some)
      show ?thesis
      proof (cases "alignSingleSample K (graphSpecPaths' s ! g) (alignedSamples' s ! g ! i)")
        case None
        with w ACalling slot d show ?thesis
          by (simp add: alignSamples_step_def align_raise_def)
      next
        case (Some r)
        define s1 where "s1 = s\<lparr>alignedSamples' := (alignedSamples' s)[g := (alignedSamples' s ! g)[i := r]],
                     trace := trace s @ [AlignCall i g, AlignReturn i g]\<rparr>"
        have inv1: "align_inv s1"
          unfolding s1_def by (rule align_inv_slot [OF inv h g]) simp
        have d1: "distinct (align_claims (trace s1))" using d by (simp add: s1_def)
        from cont [OF inv1 d1, of i] w ACalling slot Some show ?thesis
          by (simp add: alignSamples_step_def s1_def)
      qed
    qed
  qed
qed

lemma align_claims_distinct_exec:
  "align_inv s \<Longrightarrow> distinct (align_claims (trace s)) \<Longrightarrow>
   distinct (align_claims (trace (alignSamples_exec K sched s)))"
  unfolding alignSamples_exec_def
  by (induction sched arbitrary: s) (simp_all add: align_inv_step align_claims_distinct_step)

lemma inflight_member:
  "w < length ws \<Longrightarrow> ws ! w = ACalling i g \<Longrightarrow> (i, g) \<in># align_inflight ws"
proof (induction ws arbitrary: w)
  case Nil
  then show ?case by simp
next
  case (Cons a ws)
  then show ?case by (cases w) (simp_all add: align_inflight_def)
qed

text \<open>A pair that a worker is processing has not been passed to the aligner before.\<close>

lemma inflight_not_called:
  assumes bk: "align_book s" and d: "distinct (align_claims (trace s))"
    and w: "w < length (alignWorkers s)" and pc: "alignWorkers s ! w = ACalling i g"
  shows "(i, g) \<notin> set (align_calls (trace s))" "(i, g) \<notin> set (align_returns (trace s))"
proof -
  define a where "a = count (mset (align_claims (trace s))) (i, g)"
  define b where "b = count (mset (align_calls (trace s))) (i, g)"
  define c where "c = count (mset (align_range_errors (trace s))) (i, g)"
  define e where "e = count (align_inflight (alignWorkers s)) (i, g)"
  define r where "r = count (mset (align_returns (trace s))) (i, g)"
  define t where "t = count (mset (align_throws (trace s))) (i, g)"
  from inflight_member [OF w pc] have "e \<noteq> 0"
    unfolding e_def by (simp only: count_eq_zero_iff not_not)
  moreover have "a = b + c + e"
    unfolding a_def b_def c_def e_def
    using arg_cong [OF conjunct1 [OF bk [unfolded align_book_def]], of "\<lambda>M. count M (i, g)"]
    by simp
  moreover have "a \<le> 1"
    unfolding a_def using d by (simp add: count_mset count_list_distinct)
  ultimately have b0: "b = 0" by arith
  have "b = r + t"
    unfolding b_def r_def t_def
    using arg_cong [OF conjunct2 [OF bk [unfolded align_book_def]], of "\<lambda>M. count M (i, g)"]
    by simp
  with b0 have r0: "r = 0" by arith
  from b0 have "(i, g) \<notin># mset (align_calls (trace s))"
    unfolding b_def by (simp add: count_eq_zero_iff)
  then show "(i, g) \<notin> set (align_calls (trace s))" by simp
  from r0 have "(i, g) \<notin># mset (align_returns (trace s))"
    unfolding r_def by (simp add: count_eq_zero_iff)
  then show "(i, g) \<notin> set (align_returns (trace s))" by simp
qed

text \<open>
  A slot holds the manifest sample until the aligner has returned for it, and what the
  aligner gave for the graph path and the manifest sample afterwards.
\<close>

definition slot_inv :: "Collab \<Rightarrow> Workflow \<Rightarrow> bool" where
  "slot_inv K s \<longleftrightarrow>
     (\<forall>g < length (alignedSamples' s). \<forall>i < length (manifest' s).
        if (i, g) \<in> set (align_returns (trace s))
        then alignSingleSample K (graphSpecPaths' s ! g) (manifest' s ! i) =
               Some (alignedSamples' s ! g ! i)
        else alignedSamples' s ! g ! i = manifest' s ! i)"

lemma slot_inv_cong:
  assumes "alignedSamples' t = alignedSamples' s" "manifest' t = manifest' s"
    "graphSpecPaths' t = graphSpecPaths' s" "align_returns (trace t) = align_returns (trace s)"
  shows "slot_inv K t = slot_inv K s"
  unfolding slot_inv_def by (simp only: assms)

lemma align_continue_returns:
  "align_returns (trace (align_continue w i s)) = align_returns (trace s)"
  using align_continue_trace [of w i s] by auto

lemma slot_inv_continue: "slot_inv K (align_continue w i s) = slot_inv K s"
  by (rule slot_inv_cong) (simp_all add: align_continue_frame align_continue_returns)

lemma slot_inv_raise:
  "align_returns es = [] \<Longrightarrow> slot_inv K (align_raise w es s) = slot_inv K s"
  by (rule slot_inv_cong) (simp_all add: align_raise_def)

lemma slot_inv_return:
  assumes sl: "slot_inv K s" and inv: "align_inv s"
    and g: "g < length (alignedSamples' s)" and i: "i < length (manifest' s)"
    and fresh: "(i, g) \<notin> set (align_returns (trace s))"
    and r: "alignSingleSample K (graphSpecPaths' s ! g) (alignedSamples' s ! g ! i) = Some r"
  shows "slot_inv K (s\<lparr>alignedSamples' := (alignedSamples' s)[g := (alignedSamples' s ! g)[i := r]],
                       trace := trace s @ [AlignCall i g, AlignReturn i g]\<rparr>)"
proof -
  define t where "t = s\<lparr>alignedSamples' := (alignedSamples' s)[g := (alignedSamples' s ! g)[i := r]],
                       trace := trace s @ [AlignCall i g, AlignReturn i g]\<rparr>"
  have sel: "alignedSamples' t = (alignedSamples' s)[g := (alignedSamples' s ! g)[i := r]]"
    "manifest' t = manifest' s" "graphSpecPaths' t = graphSpecPaths' s"
    "align_returns (trace t) = align_returns (trace s) @ [(i, g)]"
    by (simp_all add: t_def)
  from sl g i fresh have old: "alignedSamples' s ! g ! i = manifest' s ! i"
    by (simp add: slot_inv_def)
  have row: "alignedSamples' s ! g \<in> set (alignedSamples' s)" using g by simp
  from align_invD(8) [OF inv row] i have il: "i < length (alignedSamples' s ! g)" by simp
  have "slot_inv K t"
    unfolding slot_inv_def
  proof (intro allI impI)
    fix g' i' assume g': "g' < length (alignedSamples' t)" and i': "i' < length (manifest' t)"
    then have g'': "g' < length (alignedSamples' s)" and i'': "i' < length (manifest' s)"
      by (simp_all add: sel)
    show "if (i', g') \<in> set (align_returns (trace t))
        then alignSingleSample K (graphSpecPaths' t ! g') (manifest' t ! i') =
               Some (alignedSamples' t ! g' ! i')
        else alignedSamples' t ! g' ! i' = manifest' t ! i'"
    proof (cases "(i', g') = (i, g)")
      case True
      with r old g il show ?thesis by (simp add: sel)
    next
      case False
      then have same: "alignedSamples' t ! g' ! i' = alignedSamples' s ! g' ! i'"
        using g'' by (cases "g' = g") (auto simp add: sel nth_list_update)
      from False have mem: "(i', g') \<in> set (align_returns (trace t)) \<longleftrightarrow>
          (i', g') \<in> set (align_returns (trace s))"
        by (auto simp add: sel)
      from sl g'' i'' have "if (i', g') \<in> set (align_returns (trace s))
        then alignSingleSample K (graphSpecPaths' s ! g') (manifest' s ! i') =
               Some (alignedSamples' s ! g' ! i')
        else alignedSamples' s ! g' ! i' = manifest' s ! i'"
        by (simp add: slot_inv_def)
      then show ?thesis unfolding same mem sel(2,3) .
    qed
  qed
  then show ?thesis by (simp only: t_def)
qed

lemma slot_inv_step:
  assumes sl: "slot_inv K s" and inv: "align_inv s" and bk: "align_book s"
    and d: "distinct (align_claims (trace s))"
  shows "slot_inv K (alignSamples_step K w s)"
proof (cases "w < length (alignWorkers s)")
  case False
  with sl show ?thesis by (simp add: alignSamples_step_def)
next
  case w: True
  show ?thesis
  proof (cases "alignWorkers s ! w")
    case AStart
    with w sl show ?thesis by (simp add: alignSamples_step_def slot_inv_continue)
  next
    case AFinished
    with w sl show ?thesis by (simp add: alignSamples_step_def)
  next
    case ARaised
    with w sl show ?thesis by (simp add: alignSamples_step_def)
  next
    case (ACalling i g)
    from align_invD(6) [OF inv w ACalling] have h: "handed_out s i g" .
    from handed_out_slot [OF inv h]
    have slot: "slot_at (alignedSamples' s) g i = Some (alignedSamples' s ! g ! i)" .
    then have g: "g < length (alignedSamples' s)" by (simp add: slot_at_Some)
    from h have i: "i < length (manifest' s)" by (simp add: handed_out_def)
    show ?thesis
    proof (cases "alignSingleSample K (graphSpecPaths' s ! g) (alignedSamples' s ! g ! i)")
      case None
      with w ACalling slot sl show ?thesis
        by (simp add: alignSamples_step_def slot_inv_raise)
    next
      case (Some r)
      from slot_inv_return [OF sl inv g i inflight_not_called(2) [OF bk d w ACalling] Some]
        w ACalling slot Some
      show ?thesis by (simp add: alignSamples_step_def slot_inv_continue)
    qed
  qed
qed

lemma slot_inv_exec:
  "slot_inv K s \<Longrightarrow> align_inv s \<Longrightarrow> align_book s \<Longrightarrow> distinct (align_claims (trace s)) \<Longrightarrow>
   slot_inv K (alignSamples_exec K sched s)"
  unfolding alignSamples_exec_def
  by (induction sched arbitrary: s)
     (simp_all add: slot_inv_step align_inv_step align_book_step align_claims_distinct_step)

lemma align_phase_slots:
  assumes ctor: "Workflow_ctor gs ms ofile ofolder = Inr W"
  shows "slot_inv K (align_phase K n sched W)"
    and "distinct (align_claims (trace (align_phase K n sched W)))"
proof -
  have 0: "slot_inv K (align_start n W)" "distinct (align_claims (trace (align_start n W)))"
    by (simp_all add: slot_inv_def align_start_sel [OF ctor])
  show "slot_inv K (align_phase K n sched W)"
    unfolding align_phase_start
    by (rule slot_inv_exec [OF 0(1) align_start_inv [OF ctor] align_start_book [OF ctor] 0(2)])
  show "distinct (align_claims (trace (align_phase K n sched W)))"
    unfolding align_phase_start
    by (rule align_claims_distinct_exec [OF align_start_inv [OF ctor] 0(2)])
qed

subsection \<open>Every schedule can be completed\<close>

text \<open>The number of pairs that the cursors have not passed.\<close>

definition remaining :: "Workflow \<Rightarrow> nat" where
  "remaining s =
     sum_list (map (\<lambda>u. length (graphSpecPaths' s) - unprocessedGraphs' u) (unalignedSamples' s))"

lemma sum_list_update_less:
  fixes xs :: "nat list"
  assumes "k < length xs" "x < xs ! k"
  shows "sum_list (xs[k := x]) < sum_list xs"
  using assms
proof (induction xs arbitrary: k)
  case Nil
  then show ?case by simp
next
  case (Cons a xs)
  then show ?case by (cases k) auto
qed

lemma remaining_advance:
  assumes k: "k < length (unalignedSamples' s)"
    and c: "cursor s k < length (graphSpecPaths' s)"
  shows "remaining (advance k s) < remaining s"
proof -
  let ?f = "\<lambda>u. length (graphSpecPaths' s) - unprocessedGraphs' u"
  have "remaining (advance k s) =
      sum_list ((map ?f (unalignedSamples' s))[k := length (graphSpecPaths' s) - (cursor s k + 1)])"
    by (simp add: remaining_def advance_def map_update)
  also have "\<dots> < sum_list (map ?f (unalignedSamples' s))"
    by (rule sum_list_update_less) (use k c in \<open>simp_all add: cursor_def\<close>)
  finally show ?thesis by (simp add: remaining_def)
qed

lemma remaining_cong:
  "graphSpecPaths' t = graphSpecPaths' s \<Longrightarrow> unalignedSamples' t = unalignedSamples' s \<Longrightarrow>
   remaining t = remaining s"
  by (simp add: remaining_def)

lemma align_continue_progress:
  assumes inv: "align_inv s" and w: "w < length (alignWorkers s)"
  shows "align_done (alignWorkers (align_continue w i s) ! w) \<or>
         remaining (align_continue w i s) < remaining s"
proof (cases rule: align_continue_cases [of s i w])
  case (claim k g)
  from claim(3) align_invD(2) [OF inv] have "k < length (manifest' s)" by simp
  from align_invD(4) [OF inv this] claim(4,5) have "cursor s k < length (graphSpecPaths' s)"
    by simp
  from remaining_advance [OF claim(3) this]
  have "remaining (align_continue w i s) < remaining s"
    by (simp add: claim(7) remaining_def)
  then show ?thesis by simp
next
  case finish
  with w show ?thesis by (simp add: align_done_def)
next
  case (abandon us)
  with w show ?thesis by (simp add: align_done_def)
qed

lemma align_step_progress:
  assumes inv: "align_inv s" and w: "w < length (alignWorkers s)"
  shows "align_done (alignWorkers (alignSamples_step K w s) ! w) \<or>
         remaining (alignSamples_step K w s) < remaining s"
proof (cases "alignWorkers s ! w")
  case AStart
  with w align_continue_progress [OF inv w, of 0] show ?thesis
    by (simp add: alignSamples_step_def)
next
  case AFinished
  with w show ?thesis by (simp add: alignSamples_step_def align_done_def)
next
  case ARaised
  with w show ?thesis by (simp add: alignSamples_step_def align_done_def)
next
  case (ACalling i g)
  from align_invD(6) [OF inv w ACalling] have h: "handed_out s i g" .
  from handed_out_slot [OF inv h]
  have slot: "slot_at (alignedSamples' s) g i = Some (alignedSamples' s ! g ! i)" .
  then have g: "g < length (alignedSamples' s)" by (simp add: slot_at_Some)
  show ?thesis
  proof (cases "alignSingleSample K (graphSpecPaths' s ! g) (alignedSamples' s ! g ! i)")
    case None
    with w ACalling slot show ?thesis
      by (simp add: alignSamples_step_def align_raise_def align_done_def)
  next
    case (Some r)
    define s1 where "s1 = s\<lparr>alignedSamples' := (alignedSamples' s)[g := (alignedSamples' s ! g)[i := r]],
                     trace := trace s @ [AlignCall i g, AlignReturn i g]\<rparr>"
    have inv1: "align_inv s1"
      unfolding s1_def by (rule align_inv_slot [OF inv h g]) simp
    have w1: "w < length (alignWorkers s1)" using w by (simp add: s1_def)
    have r1: "remaining s1 = remaining s" by (rule remaining_cong) (simp_all add: s1_def)
    from align_continue_progress [OF inv1 w1, of i] r1 w ACalling slot Some show ?thesis
      by (simp add: alignSamples_step_def s1_def)
  qed
qed

text \<open>A worker that runs alone leaves \<^verbatim>\<open>alignSamples\<close> after finitely many critical sections.\<close>

lemma align_worker_finishes:
  assumes "align_inv s" "w < length (alignWorkers s)"
  shows "\<exists>k. align_done (alignWorkers (alignSamples_exec K (replicate k w) s) ! w)"
  using assms
proof (induction "remaining s" arbitrary: s rule: less_induct)
  case less
  show ?case
  proof (cases "align_done (alignWorkers s ! w)")
    case True
    then show ?thesis by (intro exI [of _ 0]) (simp add: alignSamples_exec_def)
  next
    case False
    define t where "t = alignSamples_step K w s"
    have invt: "align_inv t" and wt: "w < length (alignWorkers t)"
      using less.prems by (simp_all add: t_def align_inv_step)
    from align_step_progress [OF less.prems, of K]
    have "align_done (alignWorkers t ! w) \<or> remaining t < remaining s" by (simp add: t_def)
    then show ?thesis
    proof
      assume "align_done (alignWorkers t ! w)"
      then show ?thesis by (intro exI [of _ 1]) (simp add: alignSamples_exec_def t_def)
    next
      assume "remaining t < remaining s"
      from less.hyps [OF this invt wt] obtain k
        where "align_done (alignWorkers (alignSamples_exec K (replicate k w) t) ! w)" by blast
      then show ?thesis
        by (intro exI [of _ "Suc k"]) (simp add: alignSamples_exec_def t_def)
    qed
  qed
qed

lemma align_step_done:
  assumes "v < length (alignWorkers s)" "align_done (alignWorkers s ! v)"
  shows "align_done (alignWorkers (alignSamples_step K w s) ! v)"
proof (cases "v = w")
  case True
  with assms show ?thesis
    by (auto simp add: alignSamples_step_def align_done_def)
next
  case False
  have cont: "alignWorkers (align_continue w i t) ! v = alignWorkers t ! v" for i t
    using align_continue_workers [of w i t] False by auto
  from False assms show ?thesis
    by (simp add: alignSamples_step_def cont align_raise_def split: apc.split option.split)
qed

lemma align_exec_done:
  "v < length (alignWorkers s) \<Longrightarrow> align_done (alignWorkers s ! v) \<Longrightarrow>
   align_done (alignWorkers (alignSamples_exec K sched s) ! v)"
  unfolding alignSamples_exec_def
  by (induction sched arbitrary: s) (simp_all add: align_step_done)

lemma alignSamples_exec_append:
  "alignSamples_exec K (sched @ sched') s = alignSamples_exec K sched' (alignSamples_exec K sched s)"
  by (simp add: alignSamples_exec_def)

lemma align_workers_finish:
  assumes inv: "align_inv s"
  shows "m \<le> length (alignWorkers s) \<Longrightarrow>
         \<exists>sched. \<forall>v < m. align_done (alignWorkers (alignSamples_exec K sched s) ! v)"
proof (induction m)
  case 0
  show ?case by simp
next
  case (Suc m)
  then obtain sched where sched:
    "\<forall>v < m. align_done (alignWorkers (alignSamples_exec K sched s) ! v)" by auto
  define t where "t = alignSamples_exec K sched s"
  have invt: "align_inv t" unfolding t_def by (rule align_inv_exec [OF inv])
  have m: "m < length (alignWorkers t)" using Suc.prems by (simp add: t_def)
  from align_worker_finishes [OF invt m, of K] obtain k
    where k: "align_done (alignWorkers (alignSamples_exec K (replicate k m) t) ! m)" by blast
  have "align_done (alignWorkers (alignSamples_exec K (sched @ replicate k m) s) ! v)"
    if "v < Suc m" for v
  proof (cases "v = m")
    case True
    with k show ?thesis by (simp add: alignSamples_exec_append t_def)
  next
    case False
    with that have v: "v < m" by simp
    with sched have "align_done (alignWorkers t ! v)" by (simp add: t_def)
    moreover from v m have "v < length (alignWorkers t)" by simp
    ultimately show ?thesis
      unfolding alignSamples_exec_append t_def [symmetric] by (rule align_exec_done [rotated])
  qed
  then show ?case by blast
qed

lemma align_joinable:
  assumes inv: "align_inv s"
  shows "\<exists>sched. align_joined (alignSamples_exec K sched s)"
proof -
  from align_workers_finish [OF inv order_refl, of K] obtain sched
    where "\<forall>v < length (alignWorkers s). align_done (alignWorkers (alignSamples_exec K sched s) ! v)"
    by blast
  then have "align_joined (alignSamples_exec K sched s)"
    by (simp add: align_joined_def list_all_length)
  then show ?thesis by blast
qed

lemma align_phase_append:
  "align_phase K n (sched @ sched') W = alignSamples_exec K sched' (align_phase K n sched W)"
  by (simp add: align_phase_def alignSamples_exec_append)

lemma align_phase_joinable:
  assumes ctor: "Workflow_ctor gs ms ofile ofolder = Inr W"
  shows "\<exists>sched'. align_joined (align_phase K n (sched @ sched') W)"
  unfolding align_phase_append
  by (rule align_joinable [OF align_phase_inv(1) [OF ctor]])

text \<open>
  C1.  With at least one worker, every schedule of the alignment phase can be extended to
  one after which every worker has left \<^verbatim>\<open>alignSamples\<close>.  When every worker has left and
  no aligner call has raised, every pair of a sample with a null payload and a graph has
  been claimed exactly once, passed to the aligner exactly once and returned from exactly
  once, no other pair has been claimed, passed or returned, the slot of each such pair
  holds what the aligner gives for the path of the graph and the manifest sample, and
  every other slot holds the manifest sample.
\<close>

theorem alignSamples_exactly_once:
  assumes ctor: "Workflow_ctor gs ms ofile ofolder = Inr W"
    and n: "0 < n"
  shows "(\<exists>sched'. align_joined (align_phase K n (sched @ sched') W)) \<and>
         (align_joined (align_phase K n sched W) \<and>
          align_throws (trace (align_phase K n sched W)) = [] \<longrightarrow>
            (\<forall>i g.
               count_list (align_claims (trace (align_phase K n sched W))) (i, g) =
                 (if i < length ms \<and> alignment_data (ms ! i) = None \<and> g < length gs then 1 else 0) \<and>
               count_list (align_calls (trace (align_phase K n sched W))) (i, g) =
                 (if i < length ms \<and> alignment_data (ms ! i) = None \<and> g < length gs then 1 else 0) \<and>
               count_list (align_returns (trace (align_phase K n sched W))) (i, g) =
                 (if i < length ms \<and> alignment_data (ms ! i) = None \<and> g < length gs then 1 else 0)) \<and>
            (\<forall>i g. i < length ms \<and> g < max 1 (length gs) \<longrightarrow>
               (if alignment_data (ms ! i) = None \<and> g < length gs
                then alignSingleSample K (gs ! g) (ms ! i) =
                       Some (alignedSamples' (align_phase K n sched W) ! g ! i)
                else alignedSamples' (align_phase K n sched W) ! g ! i = ms ! i)))"
proof (intro conjI impI)
  show "\<exists>sched'. align_joined (align_phase K n (sched @ sched') W)"
    by (rule align_phase_joinable [OF ctor])
next
  define s where "s = align_phase K n sched W"
  assume "align_joined (align_phase K n sched W) \<and>
          align_throws (trace (align_phase K n sched W)) = []"
  then have joined: "align_joined (align_phase K n sched W)"
    and ok: "align_throws (trace (align_phase K n sched W)) = []" by blast+
  note inv = align_phase_inv [OF ctor, of K n sched, folded s_def]
  have sel: "manifest' s = ms" "graphSpecPaths' s = gs"
    by (simp_all add: s_def align_phase_sel [OF ctor])
  have nofail: "failures (trace s) = []"
    using align_failures [OF align_phase_events [OF ctor, of K n sched]] ok inv(5)
    by (simp add: s_def)
  then have clear: "\<not> terminate' s" using inv(4) by (simp add: flag_inv_def)
  have h: "handed_out s i g \<longleftrightarrow> i < length ms \<and> alignment_data (ms ! i) = None \<and> g < length gs"
    for i g
  proof (cases "i < length ms")
    case False
    then show ?thesis by (simp add: handed_out_def sel)
  next
    case True
    from align_phase_complete [OF ctor n joined _ True] clear
    have "cursor s i = length gs" by (simp add: s_def)
    with True show ?thesis by (auto simp add: handed_out_def first_graph_def sel)
  qed
  have claims: "count_list (align_claims (trace s)) (i, g) =
      (if i < length ms \<and> alignment_data (ms ! i) = None \<and> g < length gs then 1 else 0)"
    for i g
    using align_exactD(1,2) [OF inv(2) clear] h by (simp add: count_list_distinct)
  from joined have "align_inflight (alignWorkers s) = {#}"
    by (simp add: align_joined_def align_inflight_joined s_def)
  with inv(3) inv(5) ok have eq: "mset (align_claims (trace s)) = mset (align_calls (trace s))"
    "mset (align_calls (trace s)) = mset (align_returns (trace s))"
    by (simp_all add: align_book_def s_def)
  have counts: "count_list (align_calls (trace s)) (i, g) = count_list (align_claims (trace s)) (i, g)"
    "count_list (align_returns (trace s)) (i, g) = count_list (align_claims (trace s)) (i, g)"
    for i g
    using arg_cong [OF eq(1), of "\<lambda>M. count M (i, g)"] arg_cong [OF eq(2), of "\<lambda>M. count M (i, g)"]
    by (simp_all add: count_mset)
  show "\<forall>i g.
       count_list (align_claims (trace (align_phase K n sched W))) (i, g) =
         (if i < length ms \<and> alignment_data (ms ! i) = None \<and> g < length gs then 1 else 0) \<and>
       count_list (align_calls (trace (align_phase K n sched W))) (i, g) =
         (if i < length ms \<and> alignment_data (ms ! i) = None \<and> g < length gs then 1 else 0) \<and>
       count_list (align_returns (trace (align_phase K n sched W))) (i, g) =
         (if i < length ms \<and> alignment_data (ms ! i) = None \<and> g < length gs then 1 else 0)"
    unfolding s_def [symmetric] by (simp only: counts claims simp_thms)
  show "\<forall>i g. i < length ms \<and> g < max 1 (length gs) \<longrightarrow>
       (if alignment_data (ms ! i) = None \<and> g < length gs
        then alignSingleSample K (gs ! g) (ms ! i) =
               Some (alignedSamples' (align_phase K n sched W) ! g ! i)
        else alignedSamples' (align_phase K n sched W) ! g ! i = ms ! i)"
  proof (intro allI impI)
    fix i g assume "i < length ms \<and> g < max 1 (length gs)"
    then have i: "i < length ms" and g: "g < max 1 (length gs)" by blast+
    from align_invD(7) [OF inv(1)] g have g': "g < length (alignedSamples' s)" by (simp add: sel)
    have "slot_inv K s" unfolding s_def by (rule align_phase_slots(1) [OF ctor])
    with g' i have sl: "if (i, g) \<in> set (align_returns (trace s))
        then alignSingleSample K (gs ! g) (ms ! i) = Some (alignedSamples' s ! g ! i)
        else alignedSamples' s ! g ! i = ms ! i"
      unfolding slot_inv_def sel by blast
    have "(i, g) \<in> set (align_returns (trace s)) \<longleftrightarrow> alignment_data (ms ! i) = None \<and> g < length gs"
    proof -
      have "(i, g) \<in> set (align_returns (trace s)) \<longleftrightarrow>
          count_list (align_returns (trace s)) (i, g) \<noteq> 0"
        by (simp add: count_list_0_iff)
      with counts(2) [of i g] claims [of i g] i show ?thesis by simp
    qed
    with sl show "if alignment_data (ms ! i) = None \<and> g < length gs
        then alignSingleSample K (gs ! g) (ms ! i) =
               Some (alignedSamples' (align_phase K n sched W) ! g ! i)
        else alignedSamples' (align_phase K n sched W) ! g ! i = ms ! i"
      unfolding s_def [symmetric] by simp
  qed
qed

definition demo_sched1 :: "nat list" where
  "demo_sched1 = [0, 1, 1, 0, 0, 1, 0, 1]"

lemma demo_align_joined: "align_joined (align_phase demo_collab 2 demo_sched1 demo_workflow)"
  by code_simp

lemma demo_align_throws:
  "align_throws (trace (align_phase demo_collab 2 demo_sched1 demo_workflow)) = []"
  by code_simp

theorem alignSamples_exactly_once_witness:
  "Workflow_ctor [''a'', ''b''] demo_manifest ''-'' [] = Inr demo_workflow \<and>
   (0::nat) < 2 \<and>
   align_joined (align_phase demo_collab 2 demo_sched1 demo_workflow) \<and>
   align_throws (trace (align_phase demo_collab 2 demo_sched1 demo_workflow)) = [] \<and>
   count_list (align_returns (trace (align_phase demo_collab 2 demo_sched1 demo_workflow))) (2, 1) = 1 \<and>
   count_list (align_returns (trace (align_phase demo_collab 2 demo_sched1 demo_workflow))) (3, 1) = 0 \<and>
   alignedSamples' (align_phase demo_collab 2 demo_sched1 demo_workflow) ! 1 ! 2 =
     (demo_sample ''z'')\<lparr>alignment_data := Some ''b''\<rparr>"
proof -
  have n: "(0::nat) < 2" by simp
  note t = conjunct2 [OF alignSamples_exactly_once [OF demo_workflow_ctor n, of demo_collab demo_sched1],
      rule_format, OF conjI [OF demo_align_joined demo_align_throws]]
  have m: "length demo_manifest = 3" "demo_manifest ! 2 = demo_sample ''z''"
    "alignment_data (demo_sample ''z'') = None"
    by (simp_all add: demo_manifest_def demo_sample_def)
  from conjunct1 [OF t, rule_format, of 2 1]
  have a: "count_list (align_returns (trace (align_phase demo_collab 2 demo_sched1 demo_workflow))) (2, 1) = 1"
    by (simp add: m)
  from conjunct1 [OF t, rule_format, of 3 1]
  have b: "count_list (align_returns (trace (align_phase demo_collab 2 demo_sched1 demo_workflow))) (3, 1) = 0"
    by (simp add: m)
  from conjunct2 [OF t, rule_format, of 2 1]
  have c: "alignedSamples' (align_phase demo_collab 2 demo_sched1 demo_workflow) ! 1 ! 2 =
     (demo_sample ''z'')\<lparr>alignment_data := Some ''b''\<rparr>"
    by (simp add: m demo_collab_def)
  from demo_workflow_ctor n demo_align_joined demo_align_throws a b c show ?thesis by blast
qed

section \<open>The run as a whole\<close>

lemma execute_alignSamples_phase:
  "execute_alignSamples K n sched (open_stream W) =
     (if align_joined (align_phase K n sched W)
      then Some (if terminate' (align_phase K n sched W) then Raised else Returned,
                 align_phase K n sched W)
      else None)"
  by (simp add: execute_alignSamples_def align_phase_def align_start_def Let_def)

lemma execute_genotypeGraphs_phase:
  "execute_genotypeGraphs K n sched2 ((align_phase K n sched1 W)\<lparr>ungenotypedSamples := 0\<rparr>) =
     (if geno_joined (geno_phase K n sched1 sched2 W)
      then Some (if terminate' (geno_phase K n sched1 sched2 W) then Raised else Returned,
                 geno_phase K n sched1 sched2 W)
      else None)"
  by (simp add: execute_genotypeGraphs_def geno_phase_def geno_start_def Let_def)

lemma Workflow_run_unfold:
  "Workflow_run K n sched1 sched2 W =
     (if sink_fails K W then Some (Raised, W)
      else if \<not> align_joined (align_phase K n sched1 W) then None
      else if terminate' (align_phase K n sched1 W) then Some (Raised, align_phase K n sched1 W)
      else if \<not> geno_joined (geno_phase K n sched1 sched2 W) then None
      else if terminate' (geno_phase K n sched1 sched2 W)
        then Some (Raised, geno_phase K n sched1 sched2 W)
      else Some (Returned, close_stream (geno_phase K n sched1 sched2 W)))"
  by (simp add: Workflow_run_def execute_alignSamples_phase execute_genotypeGraphs_phase)

text \<open>The four ways in which \<^verbatim>\<open>Workflow::run\<close> ends.\<close>

lemma Workflow_run_cases [consumes 1, case_names sink align geno returned]:
  assumes run: "Workflow_run K n sched1 sched2 W = Some (out, s)"
  obtains
    (sink) "sink_fails K W" "out = Raised" "s = W"
  | (align) "align_joined (align_phase K n sched1 W)" "terminate' (align_phase K n sched1 W)"
      "out = Raised" "s = align_phase K n sched1 W"
  | (geno) "align_joined (align_phase K n sched1 W)" "\<not> terminate' (align_phase K n sched1 W)"
      "geno_joined (geno_phase K n sched1 sched2 W)" "terminate' (geno_phase K n sched1 sched2 W)"
      "out = Raised" "s = geno_phase K n sched1 sched2 W"
  | (returned) "align_joined (align_phase K n sched1 W)" "\<not> terminate' (align_phase K n sched1 W)"
      "geno_joined (geno_phase K n sched1 sched2 W)" "\<not> terminate' (geno_phase K n sched1 sched2 W)"
      "out = Returned" "s = close_stream (geno_phase K n sched1 sched2 W)"
proof -
  let ?A = "align_phase K n sched1 W" and ?G = "geno_phase K n sched1 sched2 W"
  let ?nosink = "\<not> sink_fails K W"
  note u = Workflow_run_unfold [of K n sched1 sched2 W]
  consider "sink_fails K W" | "?nosink" "\<not> align_joined ?A"
    | "?nosink" "align_joined ?A" "terminate' ?A"
    | "?nosink" "align_joined ?A" "\<not> terminate' ?A" "\<not> geno_joined ?G"
    | "?nosink" "align_joined ?A" "\<not> terminate' ?A" "geno_joined ?G" "terminate' ?G"
    | "?nosink" "align_joined ?A" "\<not> terminate' ?A" "geno_joined ?G" "\<not> terminate' ?G"
    by blast
  then show ?thesis
  proof cases
    case 1
    then have "Workflow_run K n sched1 sched2 W = Some (Raised, W)"
      by (simp only: u if_True)
    with run have "out = Raised" "s = W" by simp_all
    with 1 sink show ?thesis by blast
  next
    case 2
    then have "Workflow_run K n sched1 sched2 W = None"
      by (simp only: u if_False if_True simp_thms)
    with run show ?thesis by simp
  next
    case 3
    then have "Workflow_run K n sched1 sched2 W = Some (Raised, ?A)"
      by (simp only: u if_False if_True simp_thms)
    with run have "out = Raised" "s = ?A" by simp_all
    with 3 align show ?thesis by blast
  next
    case 4
    then have "Workflow_run K n sched1 sched2 W = None"
      by (simp only: u if_False if_True simp_thms)
    with run show ?thesis by simp
  next
    case 5
    then have "Workflow_run K n sched1 sched2 W = Some (Raised, ?G)"
      by (simp only: u if_False if_True simp_thms)
    with run have "out = Raised" "s = ?G" by simp_all
    with 5 geno show ?thesis by blast
  next
    case 6
    then have "Workflow_run K n sched1 sched2 W = Some (Returned, close_stream ?G)"
      by (simp only: u if_False if_True simp_thms)
    with run have "out = Returned" "s = close_stream ?G" by simp_all
    with 6 returned show ?thesis by blast
  qed
qed

lemma close_stream_frame [simp]:
  "graphSpecPaths' (close_stream s) = graphSpecPaths' s"
  "manifest' (close_stream s) = manifest' s"
  "outputFilePath' (close_stream s) = outputFilePath' s"
  "outputFolderPath' (close_stream s) = outputFolderPath' s"
  "unalignedSamples' (close_stream s) = unalignedSamples' s"
  "alignedSamples' (close_stream s) = alignedSamples' s"
  "terminate' (close_stream s) = terminate' s"
  "firstPrinted' (close_stream s) = firstPrinted' s"
  "ungenotypedSamples (close_stream s) = ungenotypedSamples s"
  "alignWorkers (close_stream s) = alignWorkers s"
  "genoWorkers (close_stream s) = genoWorkers s"
  "trace (close_stream s) = trace s"
  by (simp_all add: close_stream_def)

lemma geno_start_frame [simp]:
  "graphSpecPaths' (geno_start n s) = graphSpecPaths' s"
  "manifest' (geno_start n s) = manifest' s"
  "outputFilePath' (geno_start n s) = outputFilePath' s"
  "outputFolderPath' (geno_start n s) = outputFolderPath' s"
  "unalignedSamples' (geno_start n s) = unalignedSamples' s"
  "alignedSamples' (geno_start n s) = alignedSamples' s"
  "terminate' (geno_start n s) = terminate' s"
  "firstPrinted' (geno_start n s) = firstPrinted' s"
  "fos (geno_start n s) = fos s"
  "ungenotypedSamples (geno_start n s) = 0"
  "alignWorkers (geno_start n s) = alignWorkers s"
  "genoWorkers (geno_start n s) = replicate n GStart"
  "trace (geno_start n s) = trace s"
  by (simp_all add: geno_start_def)

lemma geno_phase_sel:
  assumes "Workflow_ctor gs ms ofile ofolder = Inr W"
  shows "graphSpecPaths' (geno_phase K n sched1 sched2 W) = gs"
    "manifest' (geno_phase K n sched1 sched2 W) = ms"
    "outputFilePath' (geno_phase K n sched1 sched2 W) = ofile"
    "outputFolderPath' (geno_phase K n sched1 sched2 W) = ofolder"
    "alignedSamples' (geno_phase K n sched1 sched2 W) = alignedSamples' (align_phase K n sched1 W)"
    "unalignedSamples' (geno_phase K n sched1 sched2 W) = unalignedSamples' (align_phase K n sched1 W)"
    "length (genoWorkers (geno_phase K n sched1 sched2 W)) = n"
  by (simp_all add: geno_phase_def align_phase_sel [OF assms])

lemma geno_phase_align_inv:
  assumes "Workflow_ctor gs ms ofile ofolder = Inr W"
  shows "align_inv (geno_phase K n sched1 sched2 W)"
proof -
  have "align_inv (geno_phase K n sched1 sched2 W) = align_inv (align_phase K n sched1 W)"
    by (rule align_inv_cong) (simp_all add: geno_phase_def)
  with align_phase_inv(1) [OF assms] show ?thesis by simp
qed

subsection \<open>The shape of the table\<close>

definition table_shape :: "string list \<Rightarrow> Samples \<Rightarrow> Workflow \<Rightarrow> bool" where
  "table_shape gs ms s \<longleftrightarrow>
     length (alignedSamples' s) = max 1 (length gs) \<and>
     (\<forall>row \<in> set (alignedSamples' s). length row = length ms)"

lemma align_inv_shape:
  "align_inv s \<Longrightarrow> table_shape (graphSpecPaths' s) (manifest' s) s"
  using align_invD(7,8) by (simp add: table_shape_def)

lemma table_shape_cong:
  "alignedSamples' t = alignedSamples' s \<Longrightarrow> table_shape gs ms t = table_shape gs ms s"
  by (simp add: table_shape_def)

text \<open>
  C10.  The constructor builds \<open>max 1 (number of graphs)\<close> rows that each hold the whole
  manifest, and in every state of the alignment phase, of the genotyping phase and at
  the end of the run the table has that many rows, each with one entry for each manifest
  sample; the checked access of the alignment phase never raises.
\<close>

theorem alignedSamples_shape:
  assumes ctor: "Workflow_ctor gs ms ofile ofolder = Inr W"
  shows "alignedSamples' W = replicate (max 1 (length gs)) ms \<and>
         table_shape gs ms W \<and>
         table_shape gs ms (align_phase K n sched1 W) \<and>
         table_shape gs ms (geno_phase K n sched1 sched2 W) \<and>
         align_range_errors (trace (geno_phase K n sched1 sched2 W)) = [] \<and>
         (\<forall>out s. Workflow_run K n sched1 sched2 W = Some (out, s) \<longrightarrow> table_shape gs ms s)"
proof (intro conjI allI impI)
  show W: "alignedSamples' W = replicate (max 1 (length gs)) ms"
    by (simp add: Workflow_ctor_Inr(1) [OF ctor])
  then show sW: "table_shape gs ms W" by (simp add: table_shape_def)
  from align_inv_shape [OF align_phase_inv(1) [OF ctor, of K n sched1]]
  show sA: "table_shape gs ms (align_phase K n sched1 W)"
    by (simp add: align_phase_sel [OF ctor])
  from align_inv_shape [OF geno_phase_align_inv [OF ctor, of K n sched1 sched2]]
  show sG: "table_shape gs ms (geno_phase K n sched1 sched2 W)"
    by (simp add: geno_phase_sel [OF ctor])
  show "align_range_errors (trace (geno_phase K n sched1 sched2 W)) = []"
    by (simp add: geno_phase_def align_phase_inv(5) [OF ctor])
  fix out s assume "Workflow_run K n sched1 sched2 W = Some (out, s)"
  then show "table_shape gs ms s"
  proof (cases rule: Workflow_run_cases)
    case returned
    have "table_shape gs ms (close_stream (geno_phase K n sched1 sched2 W)) =
          table_shape gs ms (geno_phase K n sched1 sched2 W)"
      by (rule table_shape_cong) simp
    with sG returned show ?thesis by simp
  qed (use sW sA sG in simp_all)
qed

text \<open>Every aligner call was claimed.\<close>

lemma align_calls_claimed:
  assumes "align_book s" "q \<in> set (align_calls (trace s))"
  shows "q \<in> set (align_claims (trace s))"
proof -
  from assms(2) have "q \<in># mset (align_calls (trace s))" by simp
  with assms(1) have "q \<in># mset (align_claims (trace s))" by (simp add: align_book_def)
  then show ?thesis by simp
qed

lemma geno_phase_align_book:
  assumes "Workflow_ctor gs ms ofile ofolder = Inr W"
  shows "align_book (geno_phase K n sched1 sched2 W)"
  using align_phase_inv(3) [OF assms, of K n sched1]
  by (simp add: align_book_def geno_phase_def)

text \<open>
  C7, as the code has it.  A manifest sample with a payload is pushed on
  \<^verbatim>\<open>unalignedSamples_\<close> like every other sample (line 67), at its manifest position, with
  its iterator at \<^verbatim>\<open>end()\<close>; in every state of the two phases no pair of this sample has
  been claimed or passed to the aligner, and every row of the table holds the sample,
  as the manifest gives it, at its position.
\<close>

theorem prealigned_sample_skipped:
  assumes ctor: "Workflow_ctor gs ms ofile ofolder = Inr W"
    and i: "i < length ms"
    and pre: "alignment_data (ms ! i) \<noteq> None"
  shows "length (unalignedSamples' W) = length ms \<and>
         sample' (unalignedSamples' W ! i) = ms ! i \<and>
         unprocessedGraphs' (unalignedSamples' W ! i) = length gs \<and>
         (\<forall>g. (i, g) \<notin> set (align_claims (trace (align_phase K n sched1 W))) \<and>
              (i, g) \<notin> set (align_calls (trace (align_phase K n sched1 W))) \<and>
              (i, g) \<notin> set (align_claims (trace (geno_phase K n sched1 sched2 W))) \<and>
              (i, g) \<notin> set (align_calls (trace (geno_phase K n sched1 sched2 W)))) \<and>
         (\<forall>g < max 1 (length gs).
              alignedSamples' W ! g ! i = ms ! i \<and>
              alignedSamples' (align_phase K n sched1 W) ! g ! i = ms ! i \<and>
              alignedSamples' (geno_phase K n sched1 sched2 W) ! g ! i = ms ! i)"
proof (intro conjI allI impI)
  note W = Workflow_ctor_Inr(1) [OF ctor]
  show "length (unalignedSamples' W) = length ms" by (simp add: W)
  show "sample' (unalignedSamples' W ! i) = ms ! i"
    using i by (simp add: W unaligned_of_def)
  show "unprocessedGraphs' (unalignedSamples' W ! i) = length gs"
    using i pre by (auto simp add: W unaligned_of_def)
  define A where "A = align_phase K n sched1 W"
  define G where "G = geno_phase K n sched1 sched2 W"
  have invA: "align_inv A" and bookA: "align_book A"
    unfolding A_def by (rule align_phase_inv [OF ctor])+
  have invG: "align_inv G" and bookG: "align_book G"
    unfolding G_def by (rule geno_phase_align_inv [OF ctor], rule geno_phase_align_book [OF ctor])
  have selA: "manifest' A = ms" "graphSpecPaths' A = gs"
    unfolding A_def by (simp_all add: align_phase_sel [OF ctor])
  have selG: "manifest' G = ms" "graphSpecPaths' G = gs"
    unfolding G_def by (simp_all add: geno_phase_sel [OF ctor])
  have no: "(i, g) \<notin> set (align_claims (trace s))"
    if "align_inv s" "manifest' s = ms" for s g
  proof
    assume "(i, g) \<in> set (align_claims (trace s))"
    from align_invD(5) [OF that(1) this] have "handed_out s i g" by simp
    from handed_out_not_prealigned(2) [OF that(1) this] pre that(2) show False by simp
  qed
  fix g
  show "(i, g) \<notin> set (align_claims (trace (align_phase K n sched1 W)))"
    using no [OF invA selA(1)] by (simp add: A_def)
  show "(i, g) \<notin> set (align_claims (trace (geno_phase K n sched1 sched2 W)))"
    using no [OF invG selG(1)] by (simp add: G_def)
  show "(i, g) \<notin> set (align_calls (trace (align_phase K n sched1 W)))"
    using no [OF invA selA(1)] align_calls_claimed [OF bookA] by (auto simp add: A_def)
  show "(i, g) \<notin> set (align_calls (trace (geno_phase K n sched1 sched2 W)))"
    using no [OF invG selG(1)] align_calls_claimed [OF bookG] by (auto simp add: G_def)
  assume g: "g < max 1 (length gs)"
  then show "alignedSamples' W ! g ! i = ms ! i" by (simp add: W)
  have slot: "alignedSamples' s ! g ! i = ms ! i"
    if "align_inv s" "manifest' s = ms" "graphSpecPaths' s = gs" for s
  proof -
    from align_invD(7) [OF that(1)] g that(3) have "g < length (alignedSamples' s)" by simp
    then have "alignedSamples' s ! g \<in> set (alignedSamples' s)" by simp
    from align_invD(9) [OF that(1) _ _ this, of i] i pre that(2) show ?thesis by simp
  qed
  show "alignedSamples' (align_phase K n sched1 W) ! g ! i = ms ! i"
    using slot [OF invA selA] by (simp add: A_def)
  show "alignedSamples' (geno_phase K n sched1 sched2 W) ! g ! i = ms ! i"
    using slot [OF invG selG] by (simp add: G_def)
qed

definition demo_sched2 :: "nat list" where
  "demo_sched2 = [0, 1, 1, 0, 1, 0]"

lemma demo_run:
  "Workflow_run demo_collab 2 demo_sched1 demo_sched2 demo_workflow =
     Some (Returned, close_stream (geno_phase demo_collab 2 demo_sched1 demo_sched2 demo_workflow))"
proof -
  have 1: "\<not> sink_fails demo_collab demo_workflow" by code_simp
  have 2: "\<not> terminate' (align_phase demo_collab 2 demo_sched1 demo_workflow)" by code_simp
  have 3: "geno_joined (geno_phase demo_collab 2 demo_sched1 demo_sched2 demo_workflow)"
    by code_simp
  have 4: "\<not> terminate' (geno_phase demo_collab 2 demo_sched1 demo_sched2 demo_workflow)"
    by code_simp
  from 1 demo_align_joined 2 3 4 show ?thesis
    by (simp only: Workflow_run_unfold if_True if_False simp_thms)
qed

theorem alignedSamples_shape_witness:
  "Workflow_ctor [''a'', ''b''] demo_manifest ''-'' [] = Inr demo_workflow \<and>
   table_shape [''a'', ''b''] demo_manifest
     (geno_phase demo_collab 2 demo_sched1 demo_sched2 demo_workflow) \<and>
   Workflow_run demo_collab 2 demo_sched1 demo_sched2 demo_workflow =
     Some (Returned, close_stream (geno_phase demo_collab 2 demo_sched1 demo_sched2 demo_workflow)) \<and>
   table_shape [''a'', ''b''] demo_manifest
     (close_stream (geno_phase demo_collab 2 demo_sched1 demo_sched2 demo_workflow))"
proof -
  note t = alignedSamples_shape [OF demo_workflow_ctor, of demo_collab 2 demo_sched1 demo_sched2]
  from t have a: "table_shape [''a'', ''b''] demo_manifest
     (geno_phase demo_collab 2 demo_sched1 demo_sched2 demo_workflow)" by blast
  from t have "\<forall>out s. Workflow_run demo_collab 2 demo_sched1 demo_sched2 demo_workflow = Some (out, s) \<longrightarrow>
      table_shape [''a'', ''b''] demo_manifest s" by blast
  with demo_run have b: "table_shape [''a'', ''b''] demo_manifest
     (close_stream (geno_phase demo_collab 2 demo_sched1 demo_sched2 demo_workflow))" by blast
  from demo_workflow_ctor a demo_run b show ?thesis by blast
qed

text \<open>A manifest with a pre-aligned sample, for one graph.\<close>

definition demo_prealigned :: Samples where
  "demo_prealigned = [demo_sample ''x'', (demo_sample ''y'')\<lparr>alignment_data := Some ''{}''\<rparr>]"

definition demo_prealigned_workflow :: Workflow where
  "demo_prealigned_workflow =
     \<lparr>graphSpecPaths' = [''a''], manifest' = demo_prealigned,
      outputFilePath' = ''-'', outputFolderPath' = [],
      unalignedSamples' = map (unaligned_of [''a'']) demo_prealigned,
      alignedSamples' = [demo_prealigned],
      terminate' = False, firstPrinted' = False, ungenotypedSamples = 0,
      fos = [], alignWorkers = [], genoWorkers = [], trace = []\<rparr>"

lemma demo_prealigned_ctor:
  "Workflow_ctor [''a''] demo_prealigned ''-'' [] = Inr demo_prealigned_workflow"
  by code_simp

theorem prealigned_sample_skipped_witness:
  "Workflow_ctor [''a''] demo_prealigned ''-'' [] = Inr demo_prealigned_workflow \<and>
   (1::nat) < length demo_prealigned \<and>
   alignment_data (demo_prealigned ! 1) \<noteq> None \<and>
   unprocessedGraphs' (unalignedSamples' demo_prealigned_workflow ! 1) = 1 \<and>
   (1, 0) \<notin> set (align_claims (trace (geno_phase demo_collab 2 [0, 1, 0, 1] [0, 1, 0] demo_prealigned_workflow))) \<and>
   alignedSamples' (geno_phase demo_collab 2 [0, 1, 0, 1] [0, 1, 0] demo_prealigned_workflow) ! 0 ! 1 =
     demo_prealigned ! 1"
proof -
  have 1: "(1::nat) < length demo_prealigned" by (simp add: demo_prealigned_def)
  have 2: "alignment_data (demo_prealigned ! 1) \<noteq> None"
    by (simp add: demo_prealigned_def demo_sample_def)
  note t = prealigned_sample_skipped [OF demo_prealigned_ctor 1 2,
      of demo_collab 2 "[0, 1, 0, 1]" "[0, 1, 0]"]
  from t have a: "unprocessedGraphs' (unalignedSamples' demo_prealigned_workflow ! 1) = length [''a'']"
    by blast
  from t have b: "(1, 0) \<notin> set (align_claims (trace (geno_phase demo_collab 2 [0, 1, 0, 1] [0, 1, 0] demo_prealigned_workflow)))"
    by blast
  from t have "\<forall>g < max 1 (length [''a'']).
      alignedSamples' (geno_phase demo_collab 2 [0, 1, 0, 1] [0, 1, 0] demo_prealigned_workflow) ! g ! 1 =
      demo_prealigned ! 1" by blast
  then have c: "alignedSamples' (geno_phase demo_collab 2 [0, 1, 0, 1] [0, 1, 0] demo_prealigned_workflow) ! 0 ! 1 =
      demo_prealigned ! 1" by simp
  from a have a': "unprocessedGraphs' (unalignedSamples' demo_prealigned_workflow ! 1) = 1" by simp
  from demo_prealigned_ctor 1 2 a' b c show ?thesis by blast
qed

text \<open>
  C7 as stated fails: the pre-aligned sample of this manifest is an element of the
  sequence of unaligned samples that the constructor builds.
\<close>

theorem prealigned_sample_enqueued:
  "Workflow_ctor [''a''] demo_prealigned ''-'' [] = Inr demo_prealigned_workflow \<and>
   alignment_data (demo_prealigned ! 1) \<noteq> None \<and>
   demo_prealigned ! 1 \<in> set (map sample' (unalignedSamples' demo_prealigned_workflow))"
proof -
  have "alignment_data (demo_prealigned ! 1) \<noteq> None"
    by (simp add: demo_prealigned_def demo_sample_def)
  moreover have "demo_prealigned ! 1 \<in> set (map sample' (unalignedSamples' demo_prealigned_workflow))"
    by (simp add: demo_prealigned_workflow_def demo_prealigned_def unaligned_of_def)
  ultimately show ?thesis using demo_prealigned_ctor by blast
qed

section \<open>After the termination flag is set\<close>













end
